theory Spec2Isabelle
  imports Main "HOL-Library.Multiset" "HOL-Library.Signed_Division" "HOL-Library.Monad_Syntax"
begin

section \<open>Data model of sort.c\<close>

text \<open>
  The struct \<^verbatim>\<open>Manage\<close>: a borrowed label (a \<^verbatim>\<open>char *\<close> into the caller's name
  table, taken here as the text it points to) and the position the entry had when the
  universe was built. The field \<^verbatim>\<open>id\<close> is called \<open>id'\<close> since \<open>id\<close> is the
  identity function of HOL.
\<close>

record Manage =
  pseudo :: string
  id' :: int

definition RANGE :: int where
  "RANGE = 6"

subsection \<open>Memory\<close>

text \<open>
  The program mutates \<^verbatim>\<open>Manage\<close> arrays through pointers, so the arrays live in an
  explicit store. The store is a list of blocks, one per \<^verbatim>\<open>malloc\<close> call that
  succeeded, in the order of allocation; a block is the list of its cells, a freed block
  is \<open>None\<close>. A cell that was never written holds an indeterminate value, \<open>None\<close>.
  A pointer is \<open>NULL\<close> or a block with an element offset; any offset can be formed
  (\<^verbatim>\<open>end - 1\<close> for an empty array is the offset \<open>-1\<close>), only an access checks it.

  The two sources of nondeterminism are read from the state: \<open>rand_src\<close> lists the values
  \<^verbatim>\<open>rand()\<close> returns on its successive calls (\<open>rand_cnt\<close> counts the calls made),
  and \<open>malloc_src\<close> says which of the successive \<^verbatim>\<open>malloc\<close> calls find storage.

  Every operation that can leave the defined behaviour of C (an access outside a live
  block) returns an option, \<open>None\<close> being undefined behaviour.
\<close>

datatype ptr = NULL | Ptr nat int

type_synonym cell = "Manage option"

record state =
  heap :: "cell list option list"
  rand_src :: "nat \<Rightarrow> nat"
  rand_cnt :: nat
  malloc_src :: "nat \<Rightarrow> bool"
  malloc_cnt :: nat

text \<open>
  Pointer arithmetic and comparison. The program only compares pointers into the same
  array; for any other pair (undefined in C) \<open>ptr_ge\<close> is false.
\<close>

fun ptr_add :: "ptr \<Rightarrow> int \<Rightarrow> ptr" where
  "ptr_add NULL k = NULL"
| "ptr_add (Ptr b i) k = Ptr b (i + k)"

fun ptr_diff :: "ptr \<Rightarrow> ptr \<Rightarrow> int" where
  "ptr_diff (Ptr b i) (Ptr c j) = i - j"
| "ptr_diff p q = 0"

fun ptr_ge :: "ptr \<Rightarrow> ptr \<Rightarrow> bool" where
  "ptr_ge (Ptr b i) (Ptr c j) = (b = c \<and> j \<le> i)"
| "ptr_ge p q = False"

text \<open>The cells of a live block, \<open>None\<close> for a block that is freed or was never handed out.\<close>

definition block :: "state \<Rightarrow> nat \<Rightarrow> cell list option" where
  "block s b = (if b < length (heap s) then heap s ! b else None)"

text \<open>Reading \<^verbatim>\<open>*p\<close> and writing \<^verbatim>\<open>*p = v\<close>.\<close>

fun load :: "ptr \<Rightarrow> state \<Rightarrow> cell option" where
  "load NULL s = None"
| "load (Ptr b i) s =
     (case block s b of
        None \<Rightarrow> None
      | Some cs \<Rightarrow> if 0 \<le> i \<and> i < int (length cs) then Some (cs ! nat i) else None)"

fun store :: "ptr \<Rightarrow> cell \<Rightarrow> state \<Rightarrow> state option" where
  "store NULL v s = None"
| "store (Ptr b i) v s =
     (case block s b of
        None \<Rightarrow> None
      | Some cs \<Rightarrow>
          if 0 \<le> i \<and> i < int (length cs)
          then Some (s\<lparr>heap := (heap s)[b := Some (cs[nat i := v])]\<rparr>)
          else None)"

text \<open>
  \<^verbatim>\<open>malloc(n * sizeof(Manage))\<close> for an \<^verbatim>\<open>int\<close> \<open>n\<close>. A negative \<open>n\<close> converts to a
  byte count near the top of \<^verbatim>\<open>size_t\<close>, which no allocator grants. Otherwise the call
  succeeds when \<open>malloc_src\<close> says so, and returns a new block of \<open>n\<close> indeterminate cells.
\<close>

definition malloc :: "int \<Rightarrow> state \<Rightarrow> ptr \<times> state" where
  "malloc n s =
     (let ok = malloc_src s (malloc_cnt s);
          s1 = s\<lparr>malloc_cnt := Suc (malloc_cnt s)\<rparr>
      in if ok \<and> 0 \<le> n
         then (Ptr (length (heap s)) 0, s1\<lparr>heap := heap s @ [Some (replicate (nat n) None)]\<rparr>)
         else (NULL, s1))"

fun free :: "ptr \<Rightarrow> state \<Rightarrow> state option" where
  "free NULL s = Some s"
| "free (Ptr b i) s =
     (case block s b of
        None \<Rightarrow> None
      | Some cs \<Rightarrow> if i = 0 then Some (s\<lparr>heap := (heap s)[b := None]\<rparr>) else None)"

definition rand :: "state \<Rightarrow> nat \<times> state" where
  "rand s = (rand_src s (rand_cnt s), s\<lparr>rand_cnt := Suc (rand_cnt s)\<rparr>)"

text \<open>\<^verbatim>\<open>*(names + i)\<close>: the name table is only read, so it is a list outside the store.\<close>

definition names_at :: "string list \<Rightarrow> int \<Rightarrow> string option" where
  "names_at names i = (if 0 \<le> i \<and> i < int (length names) then Some (names ! nat i) else None)"

section \<open>The functions of sort.c\<close>

definition ft_swap :: "ptr \<Rightarrow> ptr \<Rightarrow> state \<Rightarrow> state option" where
  "ft_swap p p2 s =
     do {
       temp \<leftarrow> load p s;
       v \<leftarrow> load p2 s;
       s1 \<leftarrow> store p v s;
       store p2 temp s1
     }"

text \<open>The loop of \<^verbatim>\<open>shuffle\<close>, from the test \<^verbatim>\<open>ptr >= array + 1\<close> on.\<close>

function shuffle_loop :: "ptr \<Rightarrow> ptr \<Rightarrow> state \<Rightarrow> state option" where
  "shuffle_loop array p s =
     (if ptr_ge p (ptr_add array 1)
      then (case rand s of (r, s1) \<Rightarrow>
              do {
                s2 \<leftarrow> ft_swap p (ptr_add array (int r mod (ptr_diff p array + 1))) s1;
                shuffle_loop array (ptr_add p (- 1)) s2
              })
      else Some s)"
  by pat_completeness auto
termination
proof (relation "measure (\<lambda>(array, p, s). nat (ptr_diff p array))")
  show "wf (measure (\<lambda>(array, p, s). nat (ptr_diff p array)))"
    by simp
next
  fix array p :: ptr and s :: state and x :: "nat \<times> state" and r s1 s2
  assume "ptr_ge p (ptr_add array 1)"
  then show "((array, ptr_add p (- 1), s2), (array, p, s))
             \<in> measure (\<lambda>(array, p, s). nat (ptr_diff p array))"
    by (cases p; cases array) auto
qed

text \<open>Pointer arithmetic on a null pointer is undefined; otherwise the loop runs from the last cell down.\<close>

definition shuffle :: "ptr \<Rightarrow> int \<Rightarrow> state \<Rightarrow> state option" where
  "shuffle array len s =
     (case array of
        NULL \<Rightarrow> None
      | Ptr b a \<Rightarrow>
          (let end_p = ptr_add array len;
               p = ptr_add end_p (- 1)
           in shuffle_loop array p s))"

text \<open>
  The first loop of \<^verbatim>\<open>create_distinct_random_list\<close>: \<^verbatim>\<open>while (++i < RANGE)\<close>, with \<open>i\<close>
  the value before the increment. The two field assignments of one round are one write
  of the struct.
\<close>

function fill_loop :: "ptr \<Rightarrow> string list \<Rightarrow> int \<Rightarrow> state \<Rightarrow> state option" where
  "fill_loop p names i s =
     (if i + 1 < RANGE
      then do {
             nm \<leftarrow> names_at names (i + 1);
             s1 \<leftarrow> store (ptr_add p (i + 1)) (Some \<lparr>pseudo = nm, id' = i + 1\<rparr>) s;
             fill_loop p names (i + 1) s1
           }
      else Some s)"
  by pat_completeness auto
termination
  by (relation "measure (\<lambda>(p, names, i, s). nat (RANGE - i))") auto

text \<open>The second loop: \<^verbatim>\<open>while (++i < len) *res_ptr++ = *ptr++;\<close>\<close>

function copy_loop :: "ptr \<Rightarrow> ptr \<Rightarrow> int \<Rightarrow> int \<Rightarrow> state \<Rightarrow> state option" where
  "copy_loop res_ptr p i len s =
     (if i + 1 < len
      then do {
             v \<leftarrow> load p s;
             s1 \<leftarrow> store res_ptr v s;
             copy_loop (ptr_add res_ptr 1) (ptr_add p 1) (i + 1) len s1
           }
      else Some s)"
  by pat_completeness auto
termination
  by (relation "measure (\<lambda>(res_ptr, p, i, len, s). nat (len - i))") auto

text \<open>
  The result \<open>Some (NULL, s')\<close> is the return of a null pointer, \<open>Some (Ptr r 0, s')\<close> the
  return of the result array, \<open>None\<close> undefined behaviour.
\<close>

definition create_distinct_random_list :: "int \<Rightarrow> string list \<Rightarrow> state \<Rightarrow> (ptr \<times> state) option" where
  "create_distinct_random_list len names s =
     (if len > RANGE then Some (NULL, s)
      else (case malloc RANGE s of (new_list, s1) \<Rightarrow>
             (case malloc len s1 of (result, s2) \<Rightarrow>
                if result = NULL \<or> new_list = NULL then Some (NULL, s2)
                else do {
                       s3 \<leftarrow> fill_loop new_list names (- 1) s2;
                       s4 \<leftarrow> shuffle new_list RANGE s3;
                       s5 \<leftarrow> copy_loop result new_list (- 1) len s4;
                       s6 \<leftarrow> free new_list s5;
                       Some (result, s6)
                     })))"

text \<open>
  The loop of \<^verbatim>\<open>split_into_groups\<close>. The division \<^verbatim>\<open>len / 2\<close> of C truncates towards
  zero, which is \<open>sdiv\<close>.
\<close>

function split_loop :: "ptr \<Rightarrow> ptr \<Rightarrow> ptr \<Rightarrow> int \<Rightarrow> int \<Rightarrow> state \<Rightarrow> state option" where
  "split_loop lst ptr_a ptr_b i len s =
     (if i + 1 < len
      then (if i + 1 < len sdiv 2
            then do {
                   v \<leftarrow> load lst s;
                   s1 \<leftarrow> store ptr_a v s;
                   split_loop (ptr_add lst 1) (ptr_add ptr_a 1) ptr_b (i + 1) len s1
                 }
            else do {
                   v \<leftarrow> load lst s;
                   s1 \<leftarrow> store ptr_b v s;
                   split_loop (ptr_add lst 1) ptr_a (ptr_add ptr_b 1) (i + 1) len s1
                 })
      else Some s)"
  by pat_completeness auto
termination
  by (relation "measure (\<lambda>(lst, ptr_a, ptr_b, i, len, s). nat (len - i))") auto

text \<open>
  The function returns nothing; the caller reads the two pointers it passed by address.
  The model returns what \<^verbatim>\<open>*group_a\<close> and \<^verbatim>\<open>*group_b\<close> hold when the function returns.
\<close>

definition split_into_groups :: "ptr \<Rightarrow> int \<Rightarrow> state \<Rightarrow> (ptr \<times> ptr \<times> state) option" where
  "split_into_groups lst len s =
     (case malloc (len sdiv 2) s of (group_a, s1) \<Rightarrow>
        (case malloc (len sdiv 2) s1 of (group_b, s2) \<Rightarrow>
           if group_a = NULL \<or> group_b = NULL then Some (group_a, group_b, s2)
           else do {
                  s3 \<leftarrow> split_loop lst group_a group_b (- 1) len s2;
                  Some (group_a, group_b, s3)
                }))"

section \<open>Views of the store used in the statements and proofs\<close>

text \<open>Replacing the cells of block \<open>b\<close>.\<close>

definition set_block :: "state \<Rightarrow> nat \<Rightarrow> cell list \<Rightarrow> state" where
  "set_block s b cs = s\<lparr>heap := (heap s)[b := Some cs]\<rparr>"

text \<open>
  What \<open>ft_swap\<close> does to the cells of one block, and what the loop of \<open>shuffle\<close> does
  to them when it starts at offset \<open>p\<close> and reads \<^verbatim>\<open>rand()\<close> from call number \<open>c\<close> on
  (lemmas \<open>ft_swap_block\<close> and \<open>shuffle_loop_block\<close> below relate them to the code).
\<close>

definition exch :: "'a list \<Rightarrow> nat \<Rightarrow> nat \<Rightarrow> 'a list" where
  "exch xs i j = xs[i := xs ! j, j := xs ! i]"

fun fy_cells :: "'a list \<Rightarrow> nat \<Rightarrow> (nat \<Rightarrow> nat) \<Rightarrow> nat \<Rightarrow> 'a list" where
  "fy_cells cs 0 src c = cs"
| "fy_cells cs (Suc p) src c = fy_cells (exch cs (Suc p) (src c mod (Suc p + 1))) p src (Suc c)"

text \<open>
  A finite list of draws as a \<^verbatim>\<open>rand()\<close> source (\<open>0\<close> once the list is used up), and
  the draw lists that give the loop started at offset \<open>p\<close> one value in \<open>[0, i]\<close> for
  each index \<open>i\<close> from \<open>p\<close> down to \<open>1\<close>.
\<close>

definition draws :: "nat list \<Rightarrow> nat \<Rightarrow> nat" where
  "draws js k = (if k < length js then js ! k else 0)"

fun draws_ok :: "nat \<Rightarrow> nat list \<Rightarrow> bool" where
  "draws_ok 0 js = (js = [])"
| "draws_ok (Suc p) [] = False"
| "draws_ok (Suc p) (j # js) = (j \<le> Suc p \<and> draws_ok p js)"

text \<open>
  The name table of \<^verbatim>\<open>main\<close>, short arrays, and a store that holds one array in
  block 0, to run the functions on.
\<close>

definition main_names :: "string list" where
  "main_names = [''dlesieur'', ''anvilla'', ''jpantoja'', ''marimuno'', ''rocgarci'', ''vjan-nie'']"

definition entry :: "string \<Rightarrow> int \<Rightarrow> cell" where
  "entry l k = Some \<lparr>pseudo = l, id' = k\<rparr>"

definition three_cells :: "cell list" where
  "three_cells = [entry ''a'' 0, entry ''b'' 1, entry ''c'' 2]"

definition two_cells :: "cell list" where
  "two_cells = [entry ''a'' 0, entry ''b'' 1]"

definition sample_state :: "cell list \<Rightarrow> (nat \<Rightarrow> nat) \<Rightarrow> (nat \<Rightarrow> bool) \<Rightarrow> state" where
  "sample_state cs rs ms =
     \<lparr>heap = [Some cs], rand_src = rs, rand_cnt = 0, malloc_src = ms, malloc_cnt = 0\<rparr>"

text \<open>
  The cells the first loop of \<open>create_distinct_random_list\<close> leaves in the universe
  (lemma \<open>fill_loop_block\<close>), and the state after its two allocations.
\<close>

definition universe :: "string list \<Rightarrow> cell list" where
  "universe names = map (\<lambda>k. Some \<lparr>pseudo = names ! k, id' = int k\<rparr>) [0..<6]"

definition after_allocs :: "state \<Rightarrow> int \<Rightarrow> state" where
  "after_allocs s len =
     s\<lparr>malloc_cnt := Suc (Suc (malloc_cnt s)),
       heap := heap s @ [Some (replicate 6 None), Some (replicate (nat len) None)]\<rparr>"

text \<open>
  Sources for the examples: a generator that always returns 0, an allocator that grants
  every request, one that grants only the first, and the store before any allocation.
\<close>

definition zero_draws :: "nat \<Rightarrow> nat" where
  "zero_draws n = 0"

definition all_granted :: "nat \<Rightarrow> bool" where
  "all_granted n = True"

definition first_granted :: "nat \<Rightarrow> bool" where
  "first_granted n = (n = 0)"

definition start_state :: "(nat \<Rightarrow> nat) \<Rightarrow> (nat \<Rightarrow> bool) \<Rightarrow> state" where
  "start_state rs ms = \<lparr>heap = [], rand_src = rs, rand_cnt = 0, malloc_src = ms, malloc_cnt = 0\<rparr>"

section \<open>The store\<close>

lemma block_Some_less: "block s b = Some cs \<Longrightarrow> b < length (heap s)"
  by (simp add: block_def split: if_splits)

lemma block_set_block_same: "b < length (heap s) \<Longrightarrow> block (set_block s b cs) b = Some cs"
  by (simp add: block_def set_block_def)

lemma block_set_block_other: "b' \<noteq> b \<Longrightarrow> block (set_block s b cs) b' = block s b'"
  by (simp add: block_def set_block_def)

lemma set_block_twice: "set_block (set_block s b cs) b cs' = set_block s b cs'"
  by (simp add: set_block_def)

lemma set_block_same: "block s b = Some cs \<Longrightarrow> set_block s b cs = s"
  by (simp add: block_def set_block_def list_update_same_conv split: if_splits)

lemma set_block_fields [simp]:
  "rand_cnt (set_block s b cs) = rand_cnt s"
  "rand_src (set_block s b cs) = rand_src s"
  "malloc_cnt (set_block s b cs) = malloc_cnt s"
  "malloc_src (set_block s b cs) = malloc_src s"
  "length (heap (set_block s b cs)) = length (heap s)"
  by (simp_all add: set_block_def)

lemma block_rand_cnt [simp]: "block (s\<lparr>rand_cnt := n\<rparr>) b = block s b"
  by (simp add: block_def)

lemma load_block:
  "block s b = Some cs \<Longrightarrow> i < length cs \<Longrightarrow> load (Ptr b (int i)) s = Some (cs ! i)"
  by simp

lemma store_block:
  "block s b = Some cs \<Longrightarrow> i < length cs \<Longrightarrow>
   store (Ptr b (int i)) v s = Some (set_block s b (cs[i := v]))"
  by (simp add: set_block_def)

lemma ft_swap_block:
  assumes "block s b = Some cs" "i < length cs" "j < length cs"
  shows "ft_swap (Ptr b (int i)) (Ptr b (int j)) s = Some (set_block s b (exch cs i j))"
proof -
  have b: "b < length (heap s)"
    using assms(1) by (rule block_Some_less)
  have "block (set_block s b (cs[i := cs ! j])) b = Some (cs[i := cs ! j])"
    using b by (rule block_set_block_same)
  then have "store (Ptr b (int j)) (cs ! i) (set_block s b (cs[i := cs ! j]))
             = Some (set_block (set_block s b (cs[i := cs ! j])) b (cs[i := cs ! j, j := cs ! i]))"
    using assms(3) by (intro store_block) simp_all
  then show ?thesis
    using assms load_block[OF assms(1) assms(2)] load_block[OF assms(1) assms(3)]
      store_block[OF assms(1) assms(2), of "cs ! j"]
    by (simp add: ft_swap_def exch_def set_block_twice del: load.simps store.simps)
qed

lemma shuffle_loop_block:
  "block s b = Some cs \<Longrightarrow> p < length cs \<Longrightarrow>
   shuffle_loop (Ptr b 0) (Ptr b (int p)) s
   = Some ((set_block s b (fy_cells cs p (rand_src s) (rand_cnt s)))\<lparr>rand_cnt := rand_cnt s + p\<rparr>)"
proof (induction p arbitrary: s cs)
  case 0
  then show ?case
    by (simp add: set_block_same)
next
  case (Suc p)
  let ?j = "rand_src s (rand_cnt s) mod (Suc p + 1)"
  let ?s1 = "s\<lparr>rand_cnt := Suc (rand_cnt s)\<rparr>"
  let ?s2 = "set_block ?s1 b (exch cs (Suc p) ?j)"
  have j: "?j < length cs"
  proof -
    have "?j < Suc p + 1" by (rule mod_less_divisor) simp
    then show ?thesis using Suc.prems(2) by linarith
  qed
  have sw: "ft_swap (Ptr b (int (Suc p))) (Ptr b (int ?j)) ?s1 = Some ?s2"
    using Suc.prems j by (intro ft_swap_block) simp_all
  have b2: "block ?s2 b = Some (exch cs (Suc p) ?j)"
    using block_Some_less[OF Suc.prems(1)] by (intro block_set_block_same) simp
  have "shuffle_loop (Ptr b 0) (Ptr b (int p)) ?s2
        = Some ((set_block ?s2 b (fy_cells (exch cs (Suc p) ?j) p (rand_src ?s2) (rand_cnt ?s2)))
                 \<lparr>rand_cnt := rand_cnt ?s2 + p\<rparr>)"
    using b2 Suc.prems(2) by (intro Suc.IH) (simp_all add: exch_def)
  moreover have "int (rand_src s (rand_cnt s)) mod (int (Suc p) + 1) = int ?j"
    by (simp add: zmod_int)
  ultimately show ?case
    using sw
    apply (subst shuffle_loop.simps)
    apply (simp add: rand_def set_block_twice del: shuffle_loop.simps)
    apply (simp add: set_block_def)
    done
qed

section \<open>The shuffle loop on the cells of an array\<close>

lemma length_exch [simp]: "length (exch xs i j) = length xs"
  by (simp add: exch_def)

lemma nth_exch:
  "i < length xs \<Longrightarrow> j < length xs \<Longrightarrow>
   exch xs i j ! k = (if k = j then xs ! i else if k = i then xs ! j else xs ! k)"
  by (simp add: exch_def nth_list_update)

lemma nth_exch_other: "k \<noteq> i \<Longrightarrow> k \<noteq> j \<Longrightarrow> exch xs i j ! k = xs ! k"
  by (simp add: exch_def)

lemma mset_exch: "i < length xs \<Longrightarrow> j < length xs \<Longrightarrow> mset (exch xs i j) = mset xs"
  unfolding exch_def by (rule mset_swap)

lemma length_fy_cells [simp]: "length (fy_cells cs p src c) = length cs"
  by (induction p arbitrary: cs c) simp_all

lemma mset_fy_cells: "p < length cs \<Longrightarrow> mset (fy_cells cs p src c) = mset cs"
proof (induction p arbitrary: cs c)
  case 0
  then show ?case by simp
next
  case (Suc p)
  have "src c mod (Suc p + 1) < Suc p + 1"
    by (rule mod_less_divisor) simp
  then have "src c mod (Suc p + 1) < length cs"
    using Suc.prems by linarith
  then have "mset (exch cs (Suc p) (src c mod (Suc p + 1))) = mset cs"
    using Suc.prems by (intro mset_exch)
  moreover have "mset (fy_cells (exch cs (Suc p) (src c mod (Suc p + 1))) p src (Suc c))
                 = mset (exch cs (Suc p) (src c mod (Suc p + 1)))"
    using Suc.prems by (intro Suc.IH) simp
  ultimately show ?case by simp
qed

lemma fy_cells_above: "p < i \<Longrightarrow> fy_cells cs p src c ! i = cs ! i"
proof (induction p arbitrary: cs c)
  case 0
  then show ?case by simp
next
  case (Suc p)
  have "src c mod (Suc p + 1) < Suc p + 1"
    by (rule mod_less_divisor) simp
  then have "src c mod (Suc p + 1) \<noteq> i" "Suc p \<noteq> i" "p < i"
    using Suc.prems by linarith+
  then show ?case
    using Suc.IH[of "exch cs (Suc p) (src c mod (Suc p + 1))" "Suc c"]
    by (simp add: nth_exch_other)
qed

lemma draws_Cons_Suc: "draws (j # js) (Suc k) = draws js k"
  by (simp add: draws_def)

lemma draws_Cons_0: "draws (j # js) 0 = j"
  by (simp add: draws_def)

lemma fy_cells_draws_Cons: "fy_cells cs p (draws (j # js)) (Suc c) = fy_cells cs p (draws js) c"
  by (induction p arbitrary: cs c) (simp_all add: draws_Cons_Suc)

lemma tail_fixed_pick:
  assumes "distinct cs" "mset ys = mset cs" "q < length cs"
    and "\<forall>i. q < i \<longrightarrow> i < length cs \<longrightarrow> ys ! i = cs ! i"
  shows "\<exists>j\<le>q. cs ! j = ys ! q"
proof -
  have len: "length ys = length cs"
    using assms(2) by (rule mset_eq_length)
  have dy: "distinct ys"
    using assms(1,2) by (metis mset_eq_imp_distinct_iff)
  have "ys ! q \<in> set cs"
    using assms(2,3) len by (metis mset_eq_setD nth_mem)
  then obtain j where j: "j < length cs" "cs ! j = ys ! q"
    by (auto simp: in_set_conv_nth)
  have "j \<le> q"
  proof (rule ccontr)
    assume "\<not> j \<le> q"
    then have "q < j" by simp
    then have "ys ! j = cs ! j" using assms(4) j(1) by simp
    then have "ys ! j = ys ! q" using j(2) by simp
    then have "j = q"
      using dy j(1) assms(3) len by (simp add: nth_eq_iff_index_eq)
    then show False using \<open>q < j\<close> by simp
  qed
  then show ?thesis using j(2) by blast
qed

lemma tail_fixed_eq:
  assumes "distinct cs" "mset ys = mset cs" "0 < length cs"
    and "\<forall>i. 0 < i \<longrightarrow> i < length cs \<longrightarrow> ys ! i = cs ! i"
  shows "ys = cs"
proof (rule nth_equalityI)
  show "length ys = length cs"
    using assms(2) by (rule mset_eq_length)
next
  fix i assume "i < length ys"
  then have i: "i < length cs" using assms(2) by (metis mset_eq_length)
  obtain j where "j \<le> 0" "cs ! j = ys ! 0"
    using tail_fixed_pick[OF assms] by blast
  then have "ys ! 0 = cs ! 0" by simp
  then show "ys ! i = cs ! i"
    using assms(4) i by (cases "i = 0") simp_all
qed

lemma fy_cells_unique_draws:
  "distinct cs \<Longrightarrow> mset ys = mset cs \<Longrightarrow> p < length cs \<Longrightarrow>
   \<forall>i. p < i \<longrightarrow> i < length cs \<longrightarrow> ys ! i = cs ! i \<Longrightarrow>
   \<exists>!js. draws_ok p js \<and> fy_cells cs p (draws js) 0 = ys"
proof (induction p arbitrary: cs)
  case 0
  have "ys = cs"
    using 0 by (intro tail_fixed_eq) simp_all
  then show ?case by auto
next
  case (Suc p)
  let ?q = "Suc p"
  obtain j where j: "j \<le> ?q" "cs ! j = ys ! ?q"
    using tail_fixed_pick[OF Suc.prems] by blast
  have jl: "j < length cs" using j(1) Suc.prems(3) by simp
  let ?cs' = "exch cs ?q j"
  have m': "mset ?cs' = mset cs"
    using Suc.prems(3) jl by (intro mset_exch)
  have d': "distinct ?cs'"
    using m' Suc.prems(1) by (metis mset_eq_imp_distinct_iff)
  have fixed': "\<forall>i. p < i \<longrightarrow> i < length ?cs' \<longrightarrow> ys ! i = ?cs' ! i"
  proof (intro allI impI)
    fix i assume i: "p < i" "i < length ?cs'"
    show "ys ! i = ?cs' ! i"
    proof (cases "i = ?q")
      case True
      then show ?thesis
        using j(2) jl Suc.prems(3) by (simp add: nth_exch)
    next
      case False
      then have "?q < i" using i(1) by simp
      then have "ys ! i = cs ! i" "i \<noteq> j"
        using Suc.prems(4) i(2) j(1) by simp_all
      then show ?thesis
        using False by (simp add: nth_exch_other)
    qed
  qed
  have ex1: "\<exists>!js. draws_ok p js \<and> fy_cells ?cs' p (draws js) 0 = ys"
    using d' m' Suc.prems(2,3) fixed' by (intro Suc.IH) simp_all
  then obtain js' where js': "draws_ok p js'" "fy_cells ?cs' p (draws js') 0 = ys"
    and uniq: "\<And>js. draws_ok p js \<Longrightarrow> fy_cells ?cs' p (draws js) 0 = ys \<Longrightarrow> js = js'"
    by blast
  have jmod: "j mod Suc (Suc p) = j" using j(1) by simp
  show ?case
  proof (rule ex1I[of _ "j # js'"])
    show "draws_ok ?q (j # js') \<and> fy_cells cs ?q (draws (j # js')) 0 = ys"
      using j(1) js' jmod by (simp add: draws_Cons_0 fy_cells_draws_Cons)
  next
    fix js2 assume a: "draws_ok ?q js2 \<and> fy_cells cs ?q (draws js2) 0 = ys"
    then obtain j2 js2' where js2: "js2 = j2 # js2'" "j2 \<le> ?q" "draws_ok p js2'"
      by (cases js2) auto
    have j2mod: "j2 mod Suc (Suc p) = j2" using js2(2) by simp
    have run: "fy_cells (exch cs ?q j2) p (draws js2') 0 = ys"
      using a js2(1) j2mod by (simp add: draws_Cons_0 fy_cells_draws_Cons)
    have j2l: "j2 < length cs" using js2(2) Suc.prems(3) by simp
    have "ys ! ?q = exch cs ?q j2 ! ?q"
      using fy_cells_above[of p ?q "exch cs ?q j2" "draws js2'" 0] run by simp
    also have "\<dots> = cs ! j2"
      using j2l Suc.prems(3) by (simp add: nth_exch)
    finally have "cs ! j2 = cs ! j" using j(2) by simp
    then have "j2 = j"
      using Suc.prems(1) j2l jl by (simp add: nth_eq_iff_index_eq)
    then show "js2 = j # js'"
      using uniq[of js2'] js2 run by simp
  qed
qed

lemma draws_ok_Suc_set:
  "{js. draws_ok (Suc p) js} = (\<lambda>(j, js). j # js) ` ({..Suc p} \<times> {js. draws_ok p js})"
proof (rule set_eqI)
  fix js
  show "js \<in> {js. draws_ok (Suc p) js}
        \<longleftrightarrow> js \<in> (\<lambda>(j, js). j # js) ` ({..Suc p} \<times> {js. draws_ok p js})"
    by (cases js) (auto simp: image_iff)
qed

lemma finite_draws_ok: "finite {js. draws_ok p js}"
proof (induction p)
  case 0
  then show ?case by simp
next
  case (Suc p)
  then show ?case
    unfolding draws_ok_Suc_set by (intro finite_imageI finite_cartesian_product) simp_all
qed

lemma card_draws_ok: "card {js. draws_ok p js} = fact (Suc p)"
proof (induction p)
  case 0
  then show ?case by simp
next
  case (Suc p)
  have "inj_on (\<lambda>(j, js). j # js) ({..Suc p} \<times> {js. draws_ok p js})"
    by (auto simp: inj_on_def)
  then have "card {js. draws_ok (Suc p) js} = card ({..Suc p} \<times> {js. draws_ok p js})"
    unfolding draws_ok_Suc_set by (rule card_image)
  also have "\<dots> = Suc (Suc p) * fact (Suc p)"
    using Suc.IH by (simp add: card_cartesian_product)
  finally show ?case by simp
qed

lemma card_draws_ok_length: "card {js. draws_ok (length cs - 1) js} = fact (length cs)"
  by (cases cs) (simp_all add: card_draws_ok)

section \<open>The shuffle\<close>

lemma shuffle_Suc: "shuffle (Ptr b 0) (int (Suc n)) s = shuffle_loop (Ptr b 0) (Ptr b (int n)) s"
  by (simp add: shuffle_def del: shuffle_loop.simps)

lemma shuffle_0: "shuffle (Ptr b 0) 0 s = Some s"
  by (simp add: shuffle_def)

lemma shuffle_block:
  assumes "block s b = Some cs"
  shows "shuffle (Ptr b 0) (int (length cs)) s
         = Some ((set_block s b (fy_cells cs (length cs - 1) (rand_src s) (rand_cnt s)))
                  \<lparr>rand_cnt := rand_cnt s + (length cs - 1)\<rparr>)"
proof (cases cs)
  case Nil
  then show ?thesis
    using assms by (simp add: shuffle_0 set_block_same)
next
  case (Cons c cs')
  then have n: "length cs = Suc (length cs')" by simp
  have "shuffle_loop (Ptr b 0) (Ptr b (int (length cs'))) s
         = Some ((set_block s b (fy_cells cs (length cs') (rand_src s) (rand_cnt s)))
                  \<lparr>rand_cnt := rand_cnt s + length cs'\<rparr>)"
    using assms n by (intro shuffle_loop_block) simp_all
  then show ?thesis
    unfolding n shuffle_Suc by simp
qed

lemma block_shuffled:
  assumes "block s b = Some cs"
  shows "block ((set_block s b cs')\<lparr>rand_cnt := n\<rparr>) b = Some cs'"
  using block_Some_less[OF assms] by (simp add: block_set_block_same)

text \<open>
  Claim C2. For every array of length \<open>L \<ge> 0\<close> in the store and every source of random
  draws, \<open>shuffle\<close> returns (the loop is a total function and no access leaves the
  array), and the array then holds the same multiset of cells as before.
\<close>

theorem shuffle_is_permutation:
  assumes "block s b = Some cs"
  shows "\<exists>s' cs'. shuffle (Ptr b 0) (int (length cs)) s = Some s'
                   \<and> block s' b = Some cs' \<and> mset cs' = mset cs"
proof -
  let ?cs' = "fy_cells cs (length cs - 1) (rand_src s) (rand_cnt s)"
  have "mset ?cs' = mset cs"
  proof (cases cs)
    case Nil
    then show ?thesis by simp
  next
    case (Cons c cs')
    then show ?thesis by (intro mset_fy_cells) simp
  qed
  then show ?thesis
    using shuffle_block[OF assms] block_shuffled[OF assms] by blast
qed

theorem shuffle_is_permutation_witness:
  "\<exists>s' cs'. shuffle (Ptr 0 0) 3 (sample_state three_cells zero_draws all_granted) = Some s'
            \<and> block s' 0 = Some cs' \<and> mset cs' = mset three_cells"
  using shuffle_is_permutation [of "sample_state three_cells zero_draws all_granted" 0 three_cells]
  by (simp add: sample_state_def block_def three_cells_def)

text \<open>
  Claim C9. For a length of 0 or 1 the test of the loop fails on entry, and \<open>shuffle\<close>
  returns the state it was given: the cells are as they were and \<open>rand_cnt\<close> has not
  moved, so no draw was consumed.
\<close>

theorem shuffle_short_is_noop:
  assumes "len \<le> 1"
  shows "\<not> ptr_ge (ptr_add (ptr_add (Ptr b a) len) (- 1)) (ptr_add (Ptr b a) 1)
         \<and> shuffle (Ptr b a) len s = Some s"
  using assms by (simp add: shuffle_def)

theorem shuffle_short_is_noop_witness:
  "shuffle (Ptr 0 0) 0 (sample_state [] zero_draws all_granted) = Some (sample_state [] zero_draws all_granted)
   \<and> shuffle (Ptr 0 0) 1 (sample_state [entry ''a'' 0] zero_draws all_granted)
       = Some (sample_state [entry ''a'' 0] zero_draws all_granted)"
  using shuffle_short_is_noop [of 0 0 0 "sample_state [] zero_draws all_granted"]
    shuffle_short_is_noop [of 1 0 0 "sample_state [entry ''a'' 0] zero_draws all_granted"]
  by simp

text \<open>
  Claim C5. Take the draw for index \<open>i\<close> from \<open>[0, i]\<close> (\<open>draws_ok\<close>; the reduction
  modulo \<open>i + 1\<close> of the code then leaves it as it is). For an array of \<open>L\<close> pairwise
  different cells there are \<open>L!\<close> such sequences of draws, and every permutation \<open>ys\<close>
  of the array is what \<open>shuffle\<close> leaves for exactly one of them. With every draw uniform
  over its range all draw sequences are equally likely, hence so are all permutations.
\<close>

theorem shuffle_draws_bijective:
  assumes "block s b = Some cs" and "distinct cs" and "mset ys = mset cs"
  shows "card {js. draws_ok (length cs - 1) js} = fact (length cs)
         \<and> (\<exists>!js. draws_ok (length cs - 1) js
               \<and> (\<exists>s'. shuffle (Ptr b 0) (int (length cs)) (s\<lparr>rand_src := draws js, rand_cnt := 0\<rparr>) = Some s'
                        \<and> block s' b = Some ys))"
proof -
  have run: "\<And>js. \<exists>s'. shuffle (Ptr b 0) (int (length cs)) (s\<lparr>rand_src := draws js, rand_cnt := 0\<rparr>) = Some s'
                    \<and> block s' b = Some (fy_cells cs (length cs - 1) (draws js) 0)"
  proof -
    fix js
    let ?s = "s\<lparr>rand_src := draws js, rand_cnt := 0\<rparr>"
    have blk: "block ?s b = Some cs"
      using assms(1) by (simp add: block_def split: if_splits)
    show "\<exists>s'. shuffle (Ptr b 0) (int (length cs)) ?s = Some s'
               \<and> block s' b = Some (fy_cells cs (length cs - 1) (draws js) 0)"
      using shuffle_block[OF blk] block_shuffled[OF blk] by simp
  qed
  have iff: "\<And>js. (\<exists>s'. shuffle (Ptr b 0) (int (length cs)) (s\<lparr>rand_src := draws js, rand_cnt := 0\<rparr>) = Some s'
                        \<and> block s' b = Some ys)
                  \<longleftrightarrow> fy_cells cs (length cs - 1) (draws js) 0 = ys"
  proof -
    fix js
    obtain s1 where s1: "shuffle (Ptr b 0) (int (length cs)) (s\<lparr>rand_src := draws js, rand_cnt := 0\<rparr>) = Some s1"
      "block s1 b = Some (fy_cells cs (length cs - 1) (draws js) 0)"
      using run[of js] by blast
    show "(\<exists>s'. shuffle (Ptr b 0) (int (length cs)) (s\<lparr>rand_src := draws js, rand_cnt := 0\<rparr>) = Some s'
                        \<and> block s' b = Some ys)
                  \<longleftrightarrow> fy_cells cs (length cs - 1) (draws js) 0 = ys"
      using s1 by auto
  qed
  have "\<exists>!js. draws_ok (length cs - 1) js \<and> fy_cells cs (length cs - 1) (draws js) 0 = ys"
  proof (cases cs)
    case Nil
    then show ?thesis using assms(3) by auto
  next
    case (Cons c cs')
    then show ?thesis
      using assms(2,3) by (intro fy_cells_unique_draws) simp_all
  qed
  then have "\<exists>!js. draws_ok (length cs - 1) js
               \<and> (\<exists>s'. shuffle (Ptr b 0) (int (length cs)) (s\<lparr>rand_src := draws js, rand_cnt := 0\<rparr>) = Some s'
                        \<and> block s' b = Some ys)"
    by (simp only: iff)
  then show ?thesis
    using card_draws_ok_length[of cs] by simp
qed

theorem shuffle_draws_bijective_witness:
  "card {js. draws_ok 2 js} = 6
   \<and> (\<exists>!js. draws_ok 2 js
         \<and> (\<exists>s'. shuffle (Ptr 0 0) 3 (sample_state three_cells (draws js) all_granted) = Some s'
                  \<and> block s' 0 = Some [entry ''c'' 2, entry ''a'' 0, entry ''b'' 1]))"
proof -
  let ?s = "sample_state three_cells zero_draws all_granted"
  have h1: "block ?s 0 = Some three_cells"
    by (simp add: sample_state_def block_def)
  have h2: "distinct three_cells"
    by (simp add: three_cells_def entry_def)
  have h3: "mset [entry ''c'' 2, entry ''a'' 0, entry ''b'' 1] = mset three_cells"
    by (simp add: three_cells_def)
  have l: "length three_cells = 3" "(3::nat) - 1 = 2"
    by (simp_all add: three_cells_def)
  have upd: "\<And>js. ?s\<lparr>rand_src := draws js, rand_cnt := 0\<rparr> = sample_state three_cells (draws js) all_granted"
    by (simp add: sample_state_def)
  have f: "fact (3::nat) = (6::nat)"
    by (simp add: fact_numeral)
  show ?thesis
    using shuffle_draws_bijective [OF h1 h2 h3]
    by (simp only: l upd of_nat_numeral f)
qed

section \<open>Allocation and the loops of the sampler\<close>

lemma block_fields [simp]:
  "block (s\<lparr>rand_src := f\<rparr>) b = block s b"
  "block (s\<lparr>malloc_cnt := m\<rparr>) b = block s b"
  "block (s\<lparr>malloc_src := g\<rparr>) b = block s b"
  by (simp_all add: block_def)

lemma block_append_old: "b < length (heap s) \<Longrightarrow> block (s\<lparr>heap := heap s @ xs\<rparr>) b = block s b"
  by (simp add: block_def nth_append)

lemma block_append_new: "block (s\<lparr>heap := heap s @ [x]\<rparr>) (length (heap s)) = x"
  by (simp add: block_def)

lemma malloc_ok:
  "malloc_src s (malloc_cnt s) \<Longrightarrow> 0 \<le> n \<Longrightarrow>
   malloc n s = (Ptr (length (heap s)) 0,
                 s\<lparr>malloc_cnt := Suc (malloc_cnt s), heap := heap s @ [Some (replicate (nat n) None)]\<rparr>)"
  by (simp add: malloc_def)

lemma malloc_fail:
  "\<not> malloc_src s (malloc_cnt s) \<or> n < 0 \<Longrightarrow> malloc n s = (NULL, s\<lparr>malloc_cnt := Suc (malloc_cnt s)\<rparr>)"
  by (auto simp: malloc_def)

lemma fill_loop_from:
  "block s b = Some cs \<Longrightarrow> length cs = 6 \<Longrightarrow> 6 \<le> length names \<Longrightarrow> k \<le> 6 \<Longrightarrow>
   fill_loop (Ptr b 0) names (int k - 1) s
   = Some (set_block s b (take k cs @ map (\<lambda>k. Some \<lparr>pseudo = names ! k, id' = int k\<rparr>) [k..<6]))"
proof (induction "6 - k" arbitrary: k s cs)
  case 0
  then have "k = 6" by simp
  then show ?case
    using "0.prems" by (simp add: RANGE_def set_block_same)
next
  case (Suc d)
  let ?v = "Some \<lparr>pseudo = names ! k, id' = int k\<rparr>"
  let ?s1 = "set_block s b (cs[k := ?v])"
  have k: "k < 6" using Suc.hyps(2) by simp
  have nm: "names_at names (int k) = Some (names ! k)"
    using k Suc.prems(3) by (simp add: names_at_def)
  have st: "store (Ptr b (int k)) ?v s = Some ?s1"
    using Suc.prems(1,2) k by (intro store_block) simp_all
  have b1: "block ?s1 b = Some (cs[k := ?v])"
    using block_Some_less[OF Suc.prems(1)] by (rule block_set_block_same)
  have "fill_loop (Ptr b 0) names (int (Suc k) - 1) ?s1
        = Some (set_block ?s1 b (take (Suc k) (cs[k := ?v])
                 @ map (\<lambda>k. Some \<lparr>pseudo = names ! k, id' = int k\<rparr>) [Suc k..<6]))"
    using Suc.hyps(2) Suc.prems(2,3) k b1 by (intro Suc.hyps(1)) simp_all
  moreover have "take (Suc k) (cs[k := ?v]) = take k cs @ [?v]"
    using k Suc.prems(2) by (simp add: take_Suc_conv_app_nth)
  moreover have "[k..<6] = k # [Suc k..<6]"
    using k by (simp add: upt_conv_Cons)
  ultimately have rec: "fill_loop (Ptr b 0) names (int k) ?s1
        = Some (set_block s b (take k cs
                 @ map (\<lambda>k. Some \<lparr>pseudo = names ! k, id' = int k\<rparr>) [k..<6]))"
    by (simp add: set_block_twice del: fill_loop.simps)
  have test: "int k < RANGE" "int k - 1 + 1 = int k"
    using k by (simp_all add: RANGE_def)
  show ?case
    apply (subst fill_loop.simps)
    apply (simp only: test if_True ptr_add.simps nm)
    using st rec
    apply (simp del: fill_loop.simps store.simps)
    done
qed

lemma fill_loop_block:
  assumes "block s b = Some cs" "length cs = 6" "6 \<le> length names"
  shows "fill_loop (Ptr b 0) names (- 1) s = Some (set_block s b (universe names))"
  using fill_loop_from[OF assms, of 0] by (simp add: universe_def del: fill_loop.simps)

lemma fill_loop_short_from:
  "block s b = Some cs \<Longrightarrow> length cs = 6 \<Longrightarrow> length names < 6 \<Longrightarrow> k \<le> length names \<Longrightarrow>
   fill_loop (Ptr b 0) names (int k - 1) s = None"
proof (induction "length names - k" arbitrary: k s cs)
  case 0
  then have k: "k = length names" by simp
  have test: "int k < RANGE" "int k - 1 + 1 = int k"
    using k "0.prems"(3) by (simp_all add: RANGE_def)
  have nm: "names_at names (int k) = None"
    using k by (simp add: names_at_def)
  show ?case
    apply (subst fill_loop.simps)
    apply (simp only: test if_True nm)
    apply simp
    done
next
  case (Suc d)
  let ?v = "Some \<lparr>pseudo = names ! k, id' = int k\<rparr>"
  let ?s1 = "set_block s b (cs[k := ?v])"
  have k: "k < length names" "k < 6" using Suc.hyps(2) Suc.prems(3) by simp_all
  have nm: "names_at names (int k) = Some (names ! k)"
    using k by (simp add: names_at_def)
  have st: "store (Ptr b (int k)) ?v s = Some ?s1"
    using Suc.prems(1,2) k by (intro store_block) simp_all
  have b1: "block ?s1 b = Some (cs[k := ?v])"
    using block_Some_less[OF Suc.prems(1)] by (rule block_set_block_same)
  have "fill_loop (Ptr b 0) names (int (Suc k) - 1) ?s1 = None"
  proof (rule Suc.hyps(1)[of "Suc k" ?s1 "cs[k := ?v]"])
    show "d = length names - Suc k" using Suc.hyps(2) by simp
    show "block ?s1 b = Some (cs[k := ?v])" by (rule b1)
    show "length (cs[k := ?v]) = 6" using Suc.prems(2) by simp
    show "length names < 6" by (rule Suc.prems(3))
    show "Suc k \<le> length names" using k(1) by simp
  qed
  then have rec: "fill_loop (Ptr b 0) names (int k) ?s1 = None"
    by (simp del: fill_loop.simps)
  have test: "int k < RANGE" "int k - 1 + 1 = int k"
    using k by (simp_all add: RANGE_def)
  show ?case
    apply (subst fill_loop.simps)
    apply (simp only: test if_True ptr_add.simps nm)
    using st rec
    apply (simp del: fill_loop.simps store.simps)
    done
qed

lemma copy_loop_from:
  "block s u = Some us \<Longrightarrow> block s r = Some rs \<Longrightarrow> r \<noteq> u \<Longrightarrow>
   k \<le> m \<Longrightarrow> m \<le> length us \<Longrightarrow> m \<le> length rs \<Longrightarrow>
   copy_loop (Ptr r (int k)) (Ptr u (int k)) (int k - 1) (int m) s
   = Some (set_block s r (take k rs @ take (m - k) (drop k us) @ drop m rs))"
proof (induction "m - k" arbitrary: k s rs)
  case 0
  then have "k = m" by simp
  then show ?case
    using "0.prems"(2) by (simp add: set_block_same)
next
  case (Suc d)
  let ?x = "us ! k"
  let ?s1 = "set_block s r (rs[k := ?x])"
  have k: "k < m" "k < length us" "k < length rs"
    using Suc.hyps(2) Suc.prems(5,6) by simp_all
  have ld: "load (Ptr u (int k)) s = Some ?x"
    using Suc.prems(1) k(2) by (rule load_block)
  have st: "store (Ptr r (int k)) ?x s = Some ?s1"
    using Suc.prems(2) k(3) by (rule store_block)
  have "copy_loop (Ptr r (int (Suc k))) (Ptr u (int (Suc k))) (int (Suc k) - 1) (int m) ?s1
        = Some (set_block ?s1 r (take (Suc k) (rs[k := ?x]) @ take (m - Suc k) (drop (Suc k) us)
                                  @ drop m (rs[k := ?x])))"
  proof (rule Suc.hyps(1)[of "Suc k" ?s1 "rs[k := ?x]"])
    show "d = m - Suc k" using Suc.hyps(2) by simp
    show "block ?s1 u = Some us"
      using Suc.prems(1,3) by (simp add: block_set_block_other)
    show "block ?s1 r = Some (rs[k := ?x])"
      using block_Some_less[OF Suc.prems(2)] by (rule block_set_block_same)
    show "r \<noteq> u" by (rule Suc.prems(3))
    show "Suc k \<le> m" using k(1) by simp
    show "m \<le> length us" by (rule Suc.prems(5))
    show "m \<le> length (rs[k := ?x])" using Suc.prems(6) by simp
  qed
  moreover have "take (Suc k) (rs[k := ?x]) = take k rs @ [?x]"
    using k(3) by (simp add: take_Suc_conv_app_nth)
  moreover have "drop m (rs[k := ?x]) = drop m rs"
    using k(1) by simp
  moreover have "take (m - k) (drop k us) = ?x # take (m - Suc k) (drop (Suc k) us)"
  proof -
    have "m - k = Suc (m - Suc k)" using k(1) by simp
    moreover have "drop k us = ?x # drop (Suc k) us"
      using k(2) by (simp add: Cons_nth_drop_Suc)
    ultimately show ?thesis by simp
  qed
  ultimately have rec: "copy_loop (Ptr r (int k + 1)) (Ptr u (int k + 1)) (int k) (int m) ?s1
        = Some (set_block s r (take k rs @ take (m - k) (drop k us) @ drop m rs))"
    by (simp add: set_block_twice add.commute del: copy_loop.simps)
  have test: "int k < int m" "int k - 1 + 1 = int k"
    using k(1) by simp_all
  show ?case
    apply (subst copy_loop.simps)
    apply (simp only: test if_True ptr_add.simps ld)
    using st rec
    apply (simp del: copy_loop.simps store.simps)
    done
qed

lemma copy_loop_block:
  assumes "block s u = Some us" "block s r = Some rs" "r \<noteq> u"
    and "0 \<le> len" "nat len \<le> length us" "length rs = nat len"
  shows "copy_loop (Ptr r 0) (Ptr u 0) (- 1) len s = Some (set_block s r (take (nat len) us))"
  using copy_loop_from[OF assms(1,2,3), of 0 "nat len"] assms(4,5,6)
  by (simp del: copy_loop.simps)

lemma length_universe [simp]: "length (universe names) = 6"
  by (simp add: universe_def)

lemma free_block: "block s b = Some cs \<Longrightarrow> free (Ptr b 0) s = Some (s\<lparr>heap := (heap s)[b := None]\<rparr>)"
  by simp

text \<open>What a call that passes the test and gets both arrays does, step by step.\<close>

lemma create_block:
  assumes len: "0 \<le> len" "len \<le> RANGE"
    and names: "6 \<le> length names"
    and ok: "malloc_src s (malloc_cnt s)" "malloc_src s (Suc (malloc_cnt s))"
  shows "create_distinct_random_list len names s
         = Some (Ptr (Suc (length (heap s))) 0,
                 s\<lparr>heap := heap s @ [None, Some (take (nat len)
                            (fy_cells (universe names) 5 (rand_src s) (rand_cnt s)))],
                   rand_cnt := rand_cnt s + 5,
                   malloc_cnt := Suc (Suc (malloc_cnt s))\<rparr>)"
proof -
  let ?n = "length (heap s)"
  let ?s1 = "s\<lparr>malloc_cnt := Suc (malloc_cnt s), heap := heap s @ [Some (replicate 6 None)]\<rparr>"
  let ?s2 = "s\<lparr>malloc_cnt := Suc (Suc (malloc_cnt s)),
               heap := heap s @ [Some (replicate 6 None), Some (replicate (nat len) None)]\<rparr>"
  let ?U = "universe names"
  let ?F = "fy_cells ?U 5 (rand_src s) (rand_cnt s)"
  have m1: "malloc RANGE s = (Ptr ?n 0, ?s1)"
    using ok(1) by (simp add: malloc_ok RANGE_def)
  have m2: "malloc len ?s1 = (Ptr (Suc ?n) 0, ?s2)"
    using ok(2) len(1) by (simp add: malloc_ok)
  have bu2: "block ?s2 ?n = Some (replicate 6 None)"
    by (simp add: block_def nth_append)
  have br2: "block ?s2 (Suc ?n) = Some (replicate (nat len) None)"
    by (simp add: block_def nth_append)
  let ?s3 = "set_block ?s2 ?n ?U"
  have f: "fill_loop (Ptr ?n 0) names (- 1) ?s2 = Some ?s3"
    by (rule fill_loop_block[OF bu2 _ names]) simp
  have bu3: "block ?s3 ?n = Some ?U"
    by (intro block_set_block_same) simp
  let ?s4 = "(set_block ?s3 ?n ?F)\<lparr>rand_cnt := rand_cnt s + 5\<rparr>"
  have sh: "shuffle (Ptr ?n 0) RANGE ?s3 = Some ?s4"
    using shuffle_block[OF bu3] by (simp add: RANGE_def)
  have bu4: "block ?s4 ?n = Some ?F"
    by (simp add: block_def set_block_def nth_append)
  have br4: "block ?s4 (Suc ?n) = Some (replicate (nat len) None)"
    by (simp add: block_def set_block_def nth_append)
  let ?s5 = "set_block ?s4 (Suc ?n) (take (nat len) ?F)"
  have cp: "copy_loop (Ptr (Suc ?n) 0) (Ptr ?n 0) (- 1) len ?s4 = Some ?s5"
  proof (rule copy_loop_block[OF bu4 br4])
    show "Suc ?n \<noteq> ?n" by simp
    show "0 \<le> len" by (rule len(1))
    show "nat len \<le> length ?F" using len(2) by (simp add: RANGE_def)
    show "length (replicate (nat len) (None::cell)) = nat len" by simp
  qed
  have bu5: "block ?s5 ?n = Some ?F"
    using bu4 by (simp add: block_set_block_other)
  have fr: "free (Ptr ?n 0) ?s5 = Some (?s5\<lparr>heap := (heap ?s5)[?n := None]\<rparr>)"
    using bu5 by (rule free_block)
  have fin: "?s5\<lparr>heap := (heap ?s5)[?n := None]\<rparr>
             = s\<lparr>heap := heap s @ [None, Some (take (nat len) ?F)],
                 rand_cnt := rand_cnt s + 5,
                 malloc_cnt := Suc (Suc (malloc_cnt s))\<rparr>"
    by (simp add: set_block_def list_update_append)
  show ?thesis
    unfolding create_distinct_random_list_def
    using len(2) m1 m2 f sh cp fr
    by (simp add: fin del: fill_loop.simps copy_loop.simps free.simps)
qed

section \<open>The sampler\<close>

lemma universe_cells:
  "c \<in> set (universe names) \<Longrightarrow>
   \<exists>m. c = Some m \<and> 0 \<le> id' m \<and> id' m < RANGE \<and> pseudo m = names ! nat (id' m)"
  by (auto simp: universe_def RANGE_def)

lemma universe_distinct_ids: "distinct (map (map_option id') (universe names))"
  by (simp add: universe_def distinct_map comp_def inj_on_def)

lemma shuffled_universe_set:
  "set (fy_cells (universe names) 5 src c) = set (universe names)"
proof -
  have "mset (fy_cells (universe names) 5 src c) = mset (universe names)"
    by (rule mset_fy_cells) simp
  then show ?thesis by (rule mset_eq_setD)
qed

lemma shuffled_universe_distinct_ids:
  "distinct (map (map_option id') (fy_cells (universe names) 5 src c))"
proof -
  have "mset (fy_cells (universe names) 5 src c) = mset (universe names)"
    by (rule mset_fy_cells) simp
  then have "mset (map (map_option id') (fy_cells (universe names) 5 src c))
             = mset (map (map_option id') (universe names))"
    by simp
  then show ?thesis
    using universe_distinct_ids[of names] by (metis mset_eq_imp_distinct_iff)
qed

text \<open>
  Claim C1, as amended. The function has no pool length to compare with: it tests the
  count against \<open>RANGE\<close> and always reads \<open>RANGE\<close> names. For a name table of at least
  \<open>RANGE\<close> entries and a count from 0 to \<open>RANGE\<close>, when both allocations succeed, the call
  returns an array of exactly \<open>len\<close> entries whose \<open>id\<close> fields are pairwise different,
  lie in \<open>[0, RANGE)\<close>, hence in the pool, and whose \<open>pseudo\<close> is the name at that index.
\<close>

theorem sample_distinct_within_RANGE:
  assumes "0 \<le> len" and "len \<le> RANGE" and "RANGE \<le> int (length names)"
    and "malloc_src s (malloc_cnt s)" and "malloc_src s (Suc (malloc_cnt s))"
  shows "\<exists>r s' res. create_distinct_random_list len names s = Some (Ptr r 0, s')
           \<and> block s' r = Some res
           \<and> int (length res) = len
           \<and> distinct (map (map_option id') res)
           \<and> (\<forall>c \<in> set res. \<exists>m. c = Some m \<and> 0 \<le> id' m \<and> id' m < RANGE
                                  \<and> id' m < int (length names) \<and> pseudo m = names ! nat (id' m))"
proof -
  let ?F = "fy_cells (universe names) 5 (rand_src s) (rand_cnt s)"
  let ?res = "take (nat len) ?F"
  let ?s' = "s\<lparr>heap := heap s @ [None, Some ?res], rand_cnt := rand_cnt s + 5,
               malloc_cnt := Suc (Suc (malloc_cnt s))\<rparr>"
  have n6: "6 \<le> length names"
    using assms(3) by (simp add: RANGE_def)
  have run: "create_distinct_random_list len names s = Some (Ptr (Suc (length (heap s))) 0, ?s')"
    using assms(1,2) n6 assms(4,5) by (rule create_block)
  have blk: "block ?s' (Suc (length (heap s))) = Some ?res"
    by (simp add: block_def nth_append)
  have len: "int (length ?res) = len"
    using assms(1,2) by (simp add: RANGE_def)
  have "distinct (take (nat len) (map (map_option id') ?F))"
    using shuffled_universe_distinct_ids by (rule distinct_take)
  then have dist: "distinct (map (map_option id') ?res)"
    by (simp add: take_map)
  have cells: "\<forall>c \<in> set ?res. \<exists>m. c = Some m \<and> 0 \<le> id' m \<and> id' m < RANGE
                                  \<and> id' m < int (length names) \<and> pseudo m = names ! nat (id' m)"
  proof
    fix c assume "c \<in> set ?res"
    then have "c \<in> set ?F" by (rule in_set_takeD)
    then have "c \<in> set (universe names)" by (simp only: shuffled_universe_set)
    then obtain m where "c = Some m" "0 \<le> id' m" "id' m < RANGE" "pseudo m = names ! nat (id' m)"
      using universe_cells by blast
    then show "\<exists>m. c = Some m \<and> 0 \<le> id' m \<and> id' m < RANGE
                                  \<and> id' m < int (length names) \<and> pseudo m = names ! nat (id' m)"
      using assms(3) by auto
  qed
  show ?thesis
    using run blk len dist cells by blast
qed

theorem sample_distinct_within_RANGE_witness:
  "\<exists>r s' res. create_distinct_random_list 6 main_names (start_state zero_draws all_granted) = Some (Ptr r 0, s')
           \<and> block s' r = Some res
           \<and> int (length res) = 6
           \<and> distinct (map (map_option id') res)"
  using sample_distinct_within_RANGE [of 6 main_names "start_state zero_draws all_granted"]
  by (simp add: RANGE_def main_names_def start_state_def all_granted_def) blast

text \<open>
  Claim C1 as stated fails: with eight names a count of 7 is within the pool, and the call
  returns a null pointer.
\<close>

theorem sample_count_within_pool_counterexample:
  "(7::int) \<le> int (length (main_names @ [''seven'', ''eight'']))
   \<and> create_distinct_random_list 7 (main_names @ [''seven'', ''eight'']) (start_state zero_draws all_granted)
     = Some (NULL, start_state zero_draws all_granted)"
  by (simp add: create_distinct_random_list_def RANGE_def main_names_def)

text \<open>
  Claim C4, as amended. A count above \<open>RANGE\<close> is refused, whatever the name table: the
  call returns a null pointer and leaves the state as it was (no allocation, no draw).
\<close>

theorem sample_refuses_above_RANGE:
  assumes "len > RANGE"
  shows "create_distinct_random_list len names s = Some (NULL, s)"
  using assms by (simp add: create_distinct_random_list_def)

theorem sample_refuses_above_RANGE_witness:
  "create_distinct_random_list 7 main_names (start_state zero_draws all_granted)
   = Some (NULL, start_state zero_draws all_granted)"
  using sample_refuses_above_RANGE [of 7 main_names "start_state zero_draws all_granted"]
  by (simp add: RANGE_def)

lemma create_short:
  assumes len: "0 \<le> len" "len \<le> RANGE"
    and names: "length names < 6"
    and ok: "malloc_src s (malloc_cnt s)" "malloc_src s (Suc (malloc_cnt s))"
  shows "create_distinct_random_list len names s = None"
proof -
  let ?n = "length (heap s)"
  let ?s1 = "s\<lparr>malloc_cnt := Suc (malloc_cnt s), heap := heap s @ [Some (replicate 6 None)]\<rparr>"
  let ?s2 = "s\<lparr>malloc_cnt := Suc (Suc (malloc_cnt s)),
               heap := heap s @ [Some (replicate 6 None), Some (replicate (nat len) None)]\<rparr>"
  have m1: "malloc RANGE s = (Ptr ?n 0, ?s1)"
    using ok(1) by (simp add: malloc_ok RANGE_def)
  have m2: "malloc len ?s1 = (Ptr (Suc ?n) 0, ?s2)"
    using ok(2) len(1) by (simp add: malloc_ok)
  have bu2: "block ?s2 ?n = Some (replicate 6 None)"
    by (simp add: block_def nth_append)
  have f: "fill_loop (Ptr ?n 0) names (- 1) ?s2 = None"
    using fill_loop_short_from[OF bu2 _ names, of 0] by (simp del: fill_loop.simps)
  show ?thesis
    unfolding create_distinct_random_list_def
    using len(2) m1 m2 f
    by (simp del: fill_loop.simps)
qed

text \<open>
  Claim C4 as stated fails at its own scenario: with four names and a count of 5 the test
  \<open>len > RANGE\<close> passes, both arrays are allocated, and the first loop reads the name at
  index 4, outside the table; the call does not return a null pointer.
\<close>

theorem pool_of_four_count_five_counterexample:
  "create_distinct_random_list 5 [''a'', ''b'', ''c'', ''d''] (start_state zero_draws all_granted) = None"
  by (rule create_short) (simp_all add: RANGE_def start_state_def all_granted_def)

text \<open>
  Claim C8 as stated fails: with a single name and a count of 1 the first loop reads the
  name at index 1, outside the table.
\<close>

theorem pool_of_one_counterexample:
  "create_distinct_random_list 1 [''solo''] (start_state zero_draws all_granted) = None"
  by (rule create_short) (simp_all add: RANGE_def start_state_def all_granted_def)

lemma create_allocs:
  assumes "0 \<le> len" "malloc_src s (malloc_cnt s)" "malloc_src s (Suc (malloc_cnt s))"
  shows "malloc len (snd (malloc RANGE s)) = (Ptr (Suc (length (heap s))) 0, after_allocs s len)"
    and "fst (malloc RANGE s) = Ptr (length (heap s)) 0"
  using assms by (simp_all add: malloc_ok RANGE_def after_allocs_def)

lemma block_after_allocs:
  "block (after_allocs s len) (length (heap s)) = Some (replicate 6 None)"
  "block (after_allocs s len) (Suc (length (heap s))) = Some (replicate (nat len) None)"
  by (simp_all add: after_allocs_def block_def nth_append)

lemma create_result_not_NULL:
  assumes "0 \<le> len" "len \<le> RANGE" "malloc_src s (malloc_cnt s)" "malloc_src s (Suc (malloc_cnt s))"
  shows "create_distinct_random_list len names s \<noteq> Some (NULL, s')"
proof (cases "6 \<le> length names")
  case True
  show ?thesis
    using create_block[OF assms(1,2) True assms(3,4)] by simp
next
  case False
  then have "length names < 6" by simp
  then show ?thesis
    using create_short[OF assms(1,2) _ assms(3,4)] by simp
qed

text \<open>
  Claim C10. For a count from 0 to 6 and both allocations succeeding, the call is never
  answered with a null pointer; the universe array has \<open>RANGE\<close> cells whatever the count
  and the name table; when the table has at least six names the first loop fills it with
  the names at indices 0 to 5 and the \<open>id\<close> fields 0 to 5, \<open>shuffle\<close> runs over all six
  cells, and the result is the first \<open>len\<close> cells of the shuffled universe; when the table
  is shorter the loop still asks for six names and reads outside it.
\<close>

theorem create_checks_RANGE:
  assumes "0 \<le> len" and "len \<le> RANGE"
    and "malloc_src s (malloc_cnt s)" and "malloc_src s (Suc (malloc_cnt s))"
  shows "\<exists>s2. malloc len (snd (malloc RANGE s)) = (Ptr (Suc (length (heap s))) 0, s2)
          \<and> fst (malloc RANGE s) = Ptr (length (heap s)) 0
          \<and> (\<forall>s'. create_distinct_random_list len names s \<noteq> Some (NULL, s'))
          \<and> (if RANGE \<le> int (length names)
              then \<exists>s3 s4 us s'.
                     fill_loop (Ptr (length (heap s)) 0) names (- 1) s2 = Some s3
                     \<and> block s3 (length (heap s))
                         = Some (map (\<lambda>k. Some \<lparr>pseudo = names ! k, id' = int k\<rparr>) [0..<6])
                     \<and> shuffle (Ptr (length (heap s)) 0) RANGE s3 = Some s4
                     \<and> block s4 (length (heap s)) = Some us
                     \<and> length us = 6
                     \<and> create_distinct_random_list len names s = Some (Ptr (Suc (length (heap s))) 0, s')
                     \<and> block s' (Suc (length (heap s))) = Some (take (nat len) us)
              else create_distinct_random_list len names s = None)"
proof -
  let ?n = "length (heap s)"
  let ?s2 = "after_allocs s len"
  have a: "malloc len (snd (malloc RANGE s)) = (Ptr (Suc ?n) 0, ?s2)"
    and b: "fst (malloc RANGE s) = Ptr ?n 0"
    using assms(1,3,4) by (rule create_allocs)+
  have c: "\<forall>s'. create_distinct_random_list len names s \<noteq> Some (NULL, s')"
    using create_result_not_NULL[OF assms] by blast
  have d: "if RANGE \<le> int (length names)
              then \<exists>s3 s4 us s'.
                     fill_loop (Ptr ?n 0) names (- 1) ?s2 = Some s3
                     \<and> block s3 ?n = Some (map (\<lambda>k. Some \<lparr>pseudo = names ! k, id' = int k\<rparr>) [0..<6])
                     \<and> shuffle (Ptr ?n 0) RANGE s3 = Some s4
                     \<and> block s4 ?n = Some us
                     \<and> length us = 6
                     \<and> create_distinct_random_list len names s = Some (Ptr (Suc ?n) 0, s')
                     \<and> block s' (Suc ?n) = Some (take (nat len) us)
              else create_distinct_random_list len names s = None"
  proof (cases "RANGE \<le> int (length names)")
    case True
    then have n6: "6 \<le> length names" by (simp add: RANGE_def)
    let ?U = "universe names"
    let ?F = "fy_cells ?U 5 (rand_src s) (rand_cnt s)"
    let ?s3 = "set_block ?s2 ?n ?U"
    let ?s4 = "(set_block ?s3 ?n ?F)\<lparr>rand_cnt := rand_cnt ?s3 + 5\<rparr>"
    let ?s' = "s\<lparr>heap := heap s @ [None, Some (take (nat len) ?F)], rand_cnt := rand_cnt s + 5,
                 malloc_cnt := Suc (Suc (malloc_cnt s))\<rparr>"
    have l2: "?n < length (heap ?s2)"
      by (simp add: after_allocs_def)
    have f: "fill_loop (Ptr ?n 0) names (- 1) ?s2 = Some ?s3"
      by (rule fill_loop_block[OF block_after_allocs(1) _ n6]) simp
    have b3: "block ?s3 ?n = Some ?U"
      using l2 by (rule block_set_block_same)
    have sh: "shuffle (Ptr ?n 0) RANGE ?s3 = Some ?s4"
      using shuffle_block[OF b3] by (simp add: RANGE_def after_allocs_def)
    have b4: "block ?s4 ?n = Some ?F"
      using b3 by (rule block_shuffled)
    have run: "create_distinct_random_list len names s = Some (Ptr (Suc ?n) 0, ?s')"
      using assms(1,2) n6 assms(3,4) by (rule create_block)
    have b': "block ?s' (Suc ?n) = Some (take (nat len) ?F)"
      by (simp add: block_def nth_append)
    have "fill_loop (Ptr ?n 0) names (- 1) ?s2 = Some ?s3
          \<and> block ?s3 ?n = Some (map (\<lambda>k. Some \<lparr>pseudo = names ! k, id' = int k\<rparr>) [0..<6])
          \<and> shuffle (Ptr ?n 0) RANGE ?s3 = Some ?s4
          \<and> block ?s4 ?n = Some ?F
          \<and> length ?F = 6
          \<and> create_distinct_random_list len names s = Some (Ptr (Suc ?n) 0, ?s')
          \<and> block ?s' (Suc ?n) = Some (take (nat len) ?F)"
      using f b3 sh b4 run b' by (simp add: universe_def del: fill_loop.simps)
    then show ?thesis
      using True by (simp only: if_True) blast
  next
    case False
    then have "length names < 6" by (simp add: RANGE_def)
    then show ?thesis
      using False create_short[OF assms(1,2) _ assms(3,4)] by simp
  qed
  show ?thesis
    using a b c d by blast
qed

theorem create_checks_RANGE_witness:
  "\<exists>s2. malloc 2 (snd (malloc RANGE (start_state zero_draws all_granted))) = (Ptr 1 0, s2)
          \<and> fst (malloc RANGE (start_state zero_draws all_granted)) = Ptr 0 0
          \<and> (\<forall>s'. create_distinct_random_list 2 (main_names @ [''seven'']) (start_state zero_draws all_granted)
                     \<noteq> Some (NULL, s'))
          \<and> (\<exists>s3 s4 us s'.
                     fill_loop (Ptr 0 0) (main_names @ [''seven'']) (- 1) s2 = Some s3
                     \<and> block s3 0
                         = Some (map (\<lambda>k. Some \<lparr>pseudo = (main_names @ [''seven'']) ! k, id' = int k\<rparr>) [0..<6])
                     \<and> shuffle (Ptr 0 0) RANGE s3 = Some s4
                     \<and> block s4 0 = Some us
                     \<and> length us = 6
                     \<and> create_distinct_random_list 2 (main_names @ [''seven'']) (start_state zero_draws all_granted)
                         = Some (Ptr 1 0, s')
                     \<and> block s' 1 = Some (take 2 us))"
proof -
  have h: "(0::int) \<le> 2" "2 \<le> RANGE"
    "malloc_src (start_state zero_draws all_granted) (malloc_cnt (start_state zero_draws all_granted))"
    "malloc_src (start_state zero_draws all_granted) (Suc (malloc_cnt (start_state zero_draws all_granted)))"
    by (simp_all add: RANGE_def start_state_def all_granted_def)
  have n: "RANGE \<le> int (length (main_names @ [''seven'']))"
    "length (heap (start_state zero_draws all_granted)) = 0"
    by (simp_all add: RANGE_def main_names_def start_state_def)
  show ?thesis
    using create_checks_RANGE [OF h, of "main_names @ [''seven'']"]
    by (simp only: n if_True One_nat_def[symmetric] nat_numeral)
qed

text \<open>
  Claim C8, as amended. The universe always has six entries, so a count of 1 needs a
  name table of at least \<open>RANGE\<close> names; then, when both allocations succeed, the call
  returns one entry, the one the shuffle left at index 0: its \<open>id\<close> is some index in
  \<open>[0, RANGE)\<close> and its \<open>pseudo\<close> the name at that index.
\<close>

theorem sample_one_from_universe:
  assumes "RANGE \<le> int (length names)"
    and "malloc_src s (malloc_cnt s)" and "malloc_src s (Suc (malloc_cnt s))"
  shows "\<exists>r s' m. create_distinct_random_list 1 names s = Some (Ptr r 0, s')
           \<and> block s' r = Some [Some m]
           \<and> 0 \<le> id' m \<and> id' m < RANGE \<and> pseudo m = names ! nat (id' m)"
proof -
  let ?F = "fy_cells (universe names) 5 (rand_src s) (rand_cnt s)"
  let ?s' = "s\<lparr>heap := heap s @ [None, Some (take (nat 1) ?F)], rand_cnt := rand_cnt s + 5,
               malloc_cnt := Suc (Suc (malloc_cnt s))\<rparr>"
  have n6: "6 \<le> length names"
    using assms(1) by (simp add: RANGE_def)
  have run: "create_distinct_random_list 1 names s = Some (Ptr (Suc (length (heap s))) 0, ?s')"
    by (rule create_block[OF _ _ n6 assms(2,3)]) (simp_all add: RANGE_def)
  have "0 < length ?F" by simp
  then have t: "take (nat 1) ?F = [?F ! 0]"
    by (simp add: take_Suc_conv_app_nth)
  have "?F ! 0 \<in> set ?F"
    by (rule nth_mem) simp
  then have "?F ! 0 \<in> set (universe names)"
    by (simp only: shuffled_universe_set)
  then obtain m where m: "?F ! 0 = Some m" "0 \<le> id' m" "id' m < RANGE" "pseudo m = names ! nat (id' m)"
    using universe_cells by blast
  have blk: "block ?s' (Suc (length (heap s))) = Some [Some m]"
    using t m(1) by (simp add: block_def nth_append)
  show ?thesis
    using run blk m(2,3,4) by blast
qed

theorem sample_one_from_universe_witness:
  "\<exists>r s' m. create_distinct_random_list 1 main_names (start_state zero_draws all_granted) = Some (Ptr r 0, s')
           \<and> block s' r = Some [Some m]
           \<and> 0 \<le> id' m \<and> id' m < RANGE \<and> pseudo m = main_names ! nat (id' m)"
  using sample_one_from_universe [of main_names "start_state zero_draws all_granted"]
  by (simp add: RANGE_def main_names_def start_state_def all_granted_def)

text \<open>
  The entry returned for a count of 1 need not be the first name: with the names of
  \<^verbatim>\<open>main\<close> and a generator that always returns 0 it is the second.
\<close>

lemma shuffled_main_names:
  "fy_cells (universe main_names) 5 zero_draws 0 =
   [entry ''anvilla'' 1, entry ''jpantoja'' 2, entry ''marimuno'' 3, entry ''rocgarci'' 4,
    entry ''vjan-nie'' 5, entry ''dlesieur'' 0]"
  by code_simp

lemma sample_one_example:
  "\<exists>s'. create_distinct_random_list 1 main_names (start_state zero_draws all_granted) = Some (Ptr 1 0, s')
        \<and> block s' 1 = Some [entry ''anvilla'' 1]"
proof -
  have a: "(0::int) \<le> 1" "1 \<le> RANGE" "6 \<le> length main_names"
    "malloc_src (start_state zero_draws all_granted) (malloc_cnt (start_state zero_draws all_granted))"
    "malloc_src (start_state zero_draws all_granted) (Suc (malloc_cnt (start_state zero_draws all_granted)))"
    by (simp_all add: RANGE_def main_names_def start_state_def all_granted_def)
  have s: "rand_src (start_state zero_draws all_granted) = zero_draws"
     "rand_cnt (start_state zero_draws all_granted) = 0"
     "heap (start_state zero_draws all_granted) = []"
    by (simp_all add: start_state_def)
  show ?thesis
    using create_block[OF a]
    by (simp add: s shuffled_main_names block_def)
qed

section \<open>The partitioner\<close>

lemma sdiv_two: "int (2 * k) sdiv 2 = int k"
  by (simp add: signed_divide_int_def sgn_if)

lemma split_loop_second:
  "block s l = Some cs \<Longrightarrow> block s b = Some bs \<Longrightarrow> l \<noteq> b \<Longrightarrow>
   length cs = 2 * k \<Longrightarrow> length bs = k \<Longrightarrow> k \<le> j \<Longrightarrow> j \<le> 2 * k \<Longrightarrow>
   split_loop (Ptr l (int j)) pa (Ptr b (int (j - k))) (int j - 1) (int (2 * k)) s
   = Some (set_block s b (take (j - k) bs @ drop j cs))"
proof (induction "2 * k - j" arbitrary: j s bs pa)
  case 0
  then have "j = 2 * k" by simp
  then show ?case
    using "0.prems"(2,4,5) by (simp add: set_block_same)
next
  case (Suc d)
  let ?x = "cs ! j"
  let ?s1 = "set_block s b (bs[j - k := ?x])"
  have j: "j < 2 * k" "j < length cs" "j - k < length bs"
    using Suc.hyps(2) Suc.prems(4,5,6) by simp_all
  have ld: "load (Ptr l (int j)) s = Some ?x"
    using Suc.prems(1) j(2) by (rule load_block)
  have st: "store (Ptr b (int (j - k))) ?x s = Some ?s1"
    using Suc.prems(2) j(3) by (rule store_block)
  have "split_loop (Ptr l (int (Suc j))) (ptr_add pa 0) (Ptr b (int (Suc j - k))) (int (Suc j) - 1) (int (2 * k)) ?s1
        = Some (set_block ?s1 b (take (Suc j - k) (bs[j - k := ?x]) @ drop (Suc j) cs))"
  proof (rule Suc.hyps(1)[of "Suc j" ?s1 "bs[j - k := ?x]"])
    show "d = 2 * k - Suc j" using Suc.hyps(2) by simp
    show "block ?s1 l = Some cs"
      using Suc.prems(1,3) by (simp add: block_set_block_other)
    show "block ?s1 b = Some (bs[j - k := ?x])"
      using block_Some_less[OF Suc.prems(2)] by (rule block_set_block_same)
    show "l \<noteq> b" by (rule Suc.prems(3))
    show "length cs = 2 * k" by (rule Suc.prems(4))
    show "length (bs[j - k := ?x]) = k" using Suc.prems(5) by simp
    show "k \<le> Suc j" using Suc.prems(6) by simp
    show "Suc j \<le> 2 * k" using j(1) by simp
  qed
  moreover have "Suc j - k = Suc (j - k)"
    using Suc.prems(6) by simp
  moreover have "take (Suc (j - k)) (bs[j - k := ?x]) = take (j - k) bs @ [?x]"
    using j(3) by (simp add: take_Suc_conv_app_nth)
  moreover have "drop j cs = ?x # drop (Suc j) cs"
    using j(2) by (simp add: Cons_nth_drop_Suc)
  moreover have "ptr_add pa 0 = pa"
    by (cases pa) simp_all
  ultimately have rec: "split_loop (Ptr l (int j + 1)) pa (Ptr b (int (j - k) + 1)) (int j) (int (2 * k)) ?s1
        = Some (set_block s b (take (j - k) bs @ drop j cs))"
    by (simp add: set_block_twice add.commute del: split_loop.simps)
  have test: "int j < int (2 * k)" "int j - 1 + 1 = int j" "\<not> int j < int k"
    using j(1) Suc.prems(6) by simp_all
  show ?case
    apply (subst split_loop.simps)
    apply (simp only: test sdiv_two if_True if_False ptr_add.simps ld)
    using st rec
    apply (simp del: split_loop.simps store.simps)
    done
qed

lemma split_loop_first:
  "block s l = Some cs \<Longrightarrow> block s a = Some as \<Longrightarrow> block s b = Some bs \<Longrightarrow>
   l \<noteq> a \<Longrightarrow> l \<noteq> b \<Longrightarrow> a \<noteq> b \<Longrightarrow>
   length cs = 2 * k \<Longrightarrow> length as = k \<Longrightarrow> length bs = k \<Longrightarrow> j \<le> k \<Longrightarrow>
   split_loop (Ptr l (int j)) (Ptr a (int j)) (Ptr b 0) (int j - 1) (int (2 * k)) s
   = Some (set_block (set_block s a (take j as @ drop j (take k cs))) b (drop k cs))"
proof (induction "k - j" arbitrary: j s as)
  case 0
  then have jk: "j = k" by simp
  have "split_loop (Ptr l (int k)) (Ptr a (int k)) (Ptr b (int (k - k))) (int k - 1) (int (2 * k)) s
        = Some (set_block s b (take (k - k) bs @ drop k cs))"
    using "0.prems"(1,3,5,7,9) by (intro split_loop_second) simp_all
  moreover have "set_block s a (take k as @ drop k (take k cs)) = s"
    using "0.prems"(2,8) by (simp add: set_block_same)
  ultimately show ?case
    using jk by (simp del: split_loop.simps)
next
  case (Suc d)
  let ?x = "cs ! j"
  let ?s1 = "set_block s a (as[j := ?x])"
  have j: "j < k" "j < length cs" "j < length as" "j < 2 * k"
    using Suc.hyps(2) Suc.prems(7,8) by simp_all
  have ld: "load (Ptr l (int j)) s = Some ?x"
    using Suc.prems(1) j(2) by (rule load_block)
  have st: "store (Ptr a (int j)) ?x s = Some ?s1"
    using Suc.prems(2) j(3) by (rule store_block)
  have "split_loop (Ptr l (int (Suc j))) (Ptr a (int (Suc j))) (Ptr b 0) (int (Suc j) - 1) (int (2 * k)) ?s1
        = Some (set_block (set_block ?s1 a (take (Suc j) (as[j := ?x]) @ drop (Suc j) (take k cs))) b (drop k cs))"
  proof (rule Suc.hyps(1)[of "Suc j" ?s1 "as[j := ?x]"])
    show "d = k - Suc j" using Suc.hyps(2) by simp
    show "block ?s1 l = Some cs"
      using Suc.prems(1,4) by (simp add: block_set_block_other)
    show "block ?s1 a = Some (as[j := ?x])"
      using block_Some_less[OF Suc.prems(2)] by (rule block_set_block_same)
    show "block ?s1 b = Some bs"
      using Suc.prems(3,6) by (simp add: block_set_block_other)
    show "l \<noteq> a" "l \<noteq> b" "a \<noteq> b" by (rule Suc.prems)+
    show "length cs = 2 * k" by (rule Suc.prems(7))
    show "length (as[j := ?x]) = k" using Suc.prems(8) by simp
    show "length bs = k" by (rule Suc.prems(9))
    show "Suc j \<le> k" using j(1) by simp
  qed
  moreover have "take (Suc j) (as[j := ?x]) = take j as @ [?x]"
    using j(3) by (simp add: take_Suc_conv_app_nth)
  moreover have "drop j (take k cs) = ?x # drop (Suc j) (take k cs)"
  proof -
    have "j < length (take k cs)" using j(1) Suc.prems(7) by simp
    then have "take k cs ! j # drop (Suc j) (take k cs) = drop j (take k cs)"
      by (rule Cons_nth_drop_Suc)
    moreover have "take k cs ! j = cs ! j"
      using j(1) by simp
    ultimately show ?thesis by (simp only:)
  qed
  ultimately have rec: "split_loop (Ptr l (int j + 1)) (Ptr a (int j + 1)) (Ptr b 0) (int j) (int (2 * k)) ?s1
        = Some (set_block (set_block s a (take j as @ drop j (take k cs))) b (drop k cs))"
    by (simp add: set_block_twice add.commute del: split_loop.simps)
  have test: "int j < int (2 * k)" "int j - 1 + 1 = int j" "int j < int k"
    using j(1) by simp_all
  show ?case
    apply (subst split_loop.simps)
    apply (simp only: test sdiv_two if_True if_False ptr_add.simps ld)
    using st rec
    apply (simp del: split_loop.simps store.simps)
    done
qed

lemma split_block:
  assumes "block s l = Some cs" and "length cs = 2 * k"
    and "malloc_src s (malloc_cnt s)" and "malloc_src s (Suc (malloc_cnt s))"
  shows "split_into_groups (Ptr l 0) (int (length cs)) s
         = Some (Ptr (length (heap s)) 0, Ptr (Suc (length (heap s))) 0,
                 s\<lparr>malloc_cnt := Suc (Suc (malloc_cnt s)),
                   heap := heap s @ [Some (take k cs), Some (drop k cs)]\<rparr>)"
proof -
  let ?n = "length (heap s)"
  let ?s1 = "s\<lparr>malloc_cnt := Suc (malloc_cnt s), heap := heap s @ [Some (replicate k None)]\<rparr>"
  let ?s2 = "s\<lparr>malloc_cnt := Suc (Suc (malloc_cnt s)),
               heap := heap s @ [Some (replicate k None), Some (replicate k None)]\<rparr>"
  have l: "l < ?n" using assms(1) by (rule block_Some_less)
  have m1: "malloc (int k) s = (Ptr ?n 0, ?s1)"
    using assms(3) by (simp add: malloc_ok)
  have m2: "malloc (int k) ?s1 = (Ptr (Suc ?n) 0, ?s2)"
    using assms(4) by (simp add: malloc_ok)
  have bl: "block ?s2 l = Some cs"
    using assms(1) l by (simp add: block_def nth_append)
  have ba: "block ?s2 ?n = Some (replicate k None)"
    by (simp add: block_def nth_append)
  have bb: "block ?s2 (Suc ?n) = Some (replicate k None)"
    by (simp add: block_def nth_append)
  have "split_loop (Ptr l (int 0)) (Ptr ?n (int 0)) (Ptr (Suc ?n) 0) (int 0 - 1) (int (2 * k)) ?s2
        = Some (set_block (set_block ?s2 ?n (take 0 (replicate k None) @ drop 0 (take k cs))) (Suc ?n) (drop k cs))"
    using bl ba bb
  proof (rule split_loop_first)
    show "l \<noteq> ?n" "l \<noteq> Suc ?n" using l by simp_all
    show "?n \<noteq> Suc ?n" by simp
    show "length cs = 2 * k" by (rule assms(2))
    show "length (replicate k (None::cell)) = k" "length (replicate k (None::cell)) = k" by simp_all
    show "0 \<le> k" by simp
  qed
  moreover have "set_block (set_block ?s2 ?n (take k cs)) (Suc ?n) (drop k cs)
                 = s\<lparr>malloc_cnt := Suc (Suc (malloc_cnt s)),
                     heap := heap s @ [Some (take k cs), Some (drop k cs)]\<rparr>"
    by (simp add: set_block_def list_update_append)
  ultimately have lp: "split_loop (Ptr l 0) (Ptr ?n 0) (Ptr (Suc ?n) 0) (- 1) (int (2 * k)) ?s2
        = Some (s\<lparr>malloc_cnt := Suc (Suc (malloc_cnt s)),
                     heap := heap s @ [Some (take k cs), Some (drop k cs)]\<rparr>)"
    by (simp del: split_loop.simps)
  show ?thesis
    unfolding split_into_groups_def assms(2) sdiv_two
    using m1 m2 lp
    by (simp del: split_loop.simps)
qed

text \<open>
  Claim C3. For an array of even length \<open>2k\<close>, when both allocations succeed,
  \<open>split_into_groups\<close> returns two new arrays: group A holds the cells at indices
  \<open>[0, k)\<close> in their order, group B the cells at indices \<open>[k, 2k)\<close> in their order, and
  A followed by B is the input.
\<close>

theorem split_halves:
  assumes "block s l = Some cs" and "length cs = 2 * k"
    and "malloc_src s (malloc_cnt s)" and "malloc_src s (Suc (malloc_cnt s))"
  shows "\<exists>a b s'. split_into_groups (Ptr l 0) (int (length cs)) s = Some (Ptr a 0, Ptr b 0, s')
           \<and> block s' a = Some (take k cs) \<and> block s' b = Some (drop k cs)
           \<and> (\<forall>i<k. take k cs ! i = cs ! i) \<and> (\<forall>i<k. drop k cs ! i = cs ! (k + i))
           \<and> take k cs @ drop k cs = cs"
proof -
  let ?n = "length (heap s)"
  let ?s' = "s\<lparr>malloc_cnt := Suc (Suc (malloc_cnt s)),
               heap := heap s @ [Some (take k cs), Some (drop k cs)]\<rparr>"
  have run: "split_into_groups (Ptr l 0) (int (length cs)) s = Some (Ptr ?n 0, Ptr (Suc ?n) 0, ?s')"
    using assms by (rule split_block)
  have a: "block ?s' ?n = Some (take k cs)"
    by (simp add: block_def nth_append)
  have b: "block ?s' (Suc ?n) = Some (drop k cs)"
    by (simp add: block_def nth_append)
  have c: "\<forall>i<k. take k cs ! i = cs ! i"
    by simp
  have d: "\<forall>i<k. drop k cs ! i = cs ! (k + i)"
    using assms(2) by simp
  show ?thesis
    using run a b c d by (intro exI[of _ ?n] exI[of _ "Suc ?n"] exI[of _ ?s']) simp
qed

theorem split_halves_witness:
  "\<exists>a b s'. split_into_groups (Ptr 0 0) 2 (sample_state two_cells zero_draws all_granted)
             = Some (Ptr a 0, Ptr b 0, s')
           \<and> block s' a = Some [entry ''a'' 0] \<and> block s' b = Some [entry ''b'' 1]"
proof -
  have h: "block (sample_state two_cells zero_draws all_granted) 0 = Some two_cells"
    "length two_cells = 2 * 1"
    "malloc_src (sample_state two_cells zero_draws all_granted)
       (malloc_cnt (sample_state two_cells zero_draws all_granted))"
    "malloc_src (sample_state two_cells zero_draws all_granted)
       (Suc (malloc_cnt (sample_state two_cells zero_draws all_granted)))"
    by (simp_all add: sample_state_def block_def two_cells_def all_granted_def)
  have t: "take 1 two_cells = [entry ''a'' 0]" "drop 1 two_cells = [entry ''b'' 1]"
    "int (length two_cells) = 2"
    by (simp_all add: two_cells_def)
  show ?thesis
    using split_halves [OF h] unfolding t by blast
qed

lemma store_other:
  "store p v s = Some s' \<Longrightarrow> \<forall>i. p \<noteq> Ptr c i \<Longrightarrow> block s' c = block s c"
  by (cases p) (auto simp: block_def split: option.splits if_splits)

lemma store_Ptr_other:
  "store (Ptr a p) v s = Some s'' \<Longrightarrow> c \<noteq> a \<Longrightarrow> block s'' c = block s c"
  using store_other[of "Ptr a p" v s s'' c] by simp

lemma ptr_add_other: "\<forall>i. p \<noteq> Ptr c i \<Longrightarrow> \<forall>i. ptr_add p k \<noteq> Ptr c i"
  by (cases p) auto

lemma split_loop_frame:
  "split_loop lst pa pb i len s = Some s' \<Longrightarrow> \<forall>x. pa \<noteq> Ptr c x \<Longrightarrow> \<forall>x. pb \<noteq> Ptr c x \<Longrightarrow>
   block s' c = block s c"
proof (induction lst pa pb i len s rule: split_loop.induct)
  case (1 lst pa pb i len s)
  show ?case
  proof (cases "i + 1 < len")
    case False
    then show ?thesis using "1.prems"(1) by simp
  next
    case True
    show ?thesis
    proof (cases "i + 1 < len sdiv 2")
      case a: True
      obtain v s1 where v: "load lst s = Some v" and s1: "store pa v s = Some s1"
        and r: "split_loop (ptr_add lst 1) (ptr_add pa 1) pb (i + 1) len s1 = Some s'"
        using "1.prems"(1) True a
        by (subst (asm) split_loop.simps) (auto simp: bind_eq_Some_conv simp del: split_loop.simps)
      have "block s' c = block s1 c"
        using "1.IH"(1)[OF True a v s1 r] "1.prems"(2,3) ptr_add_other by blast
      then show ?thesis
        using store_other[OF s1 "1.prems"(2)] by simp
    next
      case a: False
      obtain v s1 where v: "load lst s = Some v" and s1: "store pb v s = Some s1"
        and r: "split_loop (ptr_add lst 1) pa (ptr_add pb 1) (i + 1) len s1 = Some s'"
        using "1.prems"(1) True a
        by (subst (asm) split_loop.simps) (auto simp: bind_eq_Some_conv simp del: split_loop.simps)
      have "block s' c = block s1 c"
        using "1.IH"(2)[OF True a v s1 r] "1.prems"(2,3) ptr_add_other by blast
      then show ?thesis
        using store_other[OF s1 "1.prems"(3)] by simp
    qed
  qed
qed

lemma malloc_cases:
  "malloc n s = (NULL, s\<lparr>malloc_cnt := Suc (malloc_cnt s)\<rparr>)
   \<or> malloc n s = (Ptr (length (heap s)) 0,
                    s\<lparr>malloc_cnt := Suc (malloc_cnt s), heap := heap s @ [Some (replicate (nat n) None)]\<rparr>)"
  by (simp add: malloc_def Let_def)

lemma malloc_old:
  "malloc n s = (p, s1) \<Longrightarrow> c < length (heap s) \<Longrightarrow> block s1 c = block s c"
  using malloc_cases[of n s] by (auto simp: block_def nth_append)

lemma malloc_new:
  "malloc n s = (p, s1) \<Longrightarrow> length (heap s) \<le> c \<Longrightarrow> block s1 c = Some cs \<Longrightarrow> set cs \<subseteq> {None}"
  using malloc_cases[of n s] by (auto simp: block_def nth_append split: if_splits)

lemma malloc_length:
  "malloc n s = (p, s1) \<Longrightarrow> length (heap s) \<le> length (heap s1)"
  using malloc_cases[of n s] by auto

lemma malloc_ptr:
  "malloc n s = (p, s1) \<Longrightarrow> p \<noteq> NULL \<Longrightarrow> p = Ptr (length (heap s)) 0 \<and> length (heap s1) = Suc (length (heap s))"
  using malloc_cases[of n s] by auto

lemma two_mallocs_old:
  assumes "malloc n s = (p, s1)" "malloc m s1 = (q, s2)" "c < length (heap s)"
  shows "block s2 c = block s c"
proof -
  have "c < length (heap s1)"
    using malloc_length[OF assms(1)] assms(3) by simp
  then show ?thesis
    using malloc_old[OF assms(2)] malloc_old[OF assms(1) assms(3)] by simp
qed

lemma two_mallocs_new:
  assumes "malloc n s = (p, s1)" "malloc m s1 = (q, s2)" "length (heap s) \<le> c" "block s2 c = Some cs"
  shows "set cs \<subseteq> {None}"
proof (cases "c < length (heap s1)")
  case True
  then have "block s1 c = Some cs"
    using malloc_old[OF assms(2) True] assms(4) by simp
  then show ?thesis
    using malloc_new[OF assms(1,3)] by simp
next
  case False
  then have "length (heap s1) \<le> c" by simp
  then show ?thesis
    using malloc_new[OF assms(2) _ assms(4)] by simp
qed

lemma split_result:
  assumes "split_into_groups lst len s = Some (ga, gb, s')"
  shows "\<forall>c. c < length (heap s) \<longrightarrow> block s' c = block s c"
    and "ga \<noteq> NULL \<Longrightarrow> gb \<noteq> NULL \<Longrightarrow>
         ga = Ptr (length (heap s)) 0 \<and> gb = Ptr (Suc (length (heap s))) 0"
proof -
  obtain p s1 where m1: "malloc (len sdiv 2) s = (p, s1)"
    by (cases "malloc (len sdiv 2) s")
  obtain q s2 where m2: "malloc (len sdiv 2) s1 = (q, s2)"
    by (cases "malloc (len sdiv 2) s1")
  have old2: "\<And>c. c < length (heap s) \<Longrightarrow> block s2 c = block s c"
    using m1 m2 by (rule two_mallocs_old)
  show "\<forall>c. c < length (heap s) \<longrightarrow> block s' c = block s c"
  proof (cases "p = NULL \<or> q = NULL")
    case True
    then have "s' = s2"
      using assms m1 m2 by (auto simp: split_into_groups_def simp del: split_loop.simps)
    then show ?thesis using old2 by simp
  next
    case False
    then have lp: "split_loop lst p q (- 1) len s2 = Some s'"
      using assms m1 m2
      by (auto simp: split_into_groups_def bind_eq_Some_conv simp del: split_loop.simps)
    have p: "p = Ptr (length (heap s)) 0"
      using malloc_ptr[OF m1] False by simp
    have q: "q = Ptr (length (heap s1)) 0"
      using malloc_ptr[OF m2] False by simp
    have l1: "length (heap s) \<le> length (heap s1)"
      using m1 by (rule malloc_length)
    show ?thesis
    proof (intro allI impI)
      fix c assume c: "c < length (heap s)"
      have "block s' c = block s2 c"
        using lp
      proof (rule split_loop_frame)
        show "\<forall>x. p \<noteq> Ptr c x" using p c by simp
        show "\<forall>x. q \<noteq> Ptr c x" using q c l1 by simp
      qed
      then show "block s' c = block s c"
        using old2[OF c] by simp
    qed
  qed
  show "ga = Ptr (length (heap s)) 0 \<and> gb = Ptr (Suc (length (heap s))) 0"
    if "ga \<noteq> NULL" "gb \<noteq> NULL"
  proof -
    have g: "ga = p" "gb = q"
      using assms m1 m2
      by (auto simp: split_into_groups_def bind_eq_Some_conv simp del: split_loop.simps split: if_splits)
    then have "p \<noteq> NULL" "q \<noteq> NULL" using that by simp_all
    then show ?thesis
      using malloc_ptr[OF m1] malloc_ptr[OF m2] g by simp
  qed
qed

lemma split_fail:
  assumes "fst (malloc (len sdiv 2) s) = NULL
           \<or> fst (malloc (len sdiv 2) (snd (malloc (len sdiv 2) s))) = NULL"
  shows "\<exists>ga gb s'. split_into_groups lst len s = Some (ga, gb, s') \<and> (ga = NULL \<or> gb = NULL)
           \<and> (\<forall>c. c < length (heap s) \<longrightarrow> block s' c = block s c)
           \<and> (\<forall>c cs. length (heap s) \<le> c \<longrightarrow> block s' c = Some cs \<longrightarrow> set cs \<subseteq> {None})"
proof -
  obtain p s1 where m1: "malloc (len sdiv 2) s = (p, s1)"
    by (cases "malloc (len sdiv 2) s")
  obtain q s2 where m2: "malloc (len sdiv 2) s1 = (q, s2)"
    by (cases "malloc (len sdiv 2) s1")
  have pq: "p = NULL \<or> q = NULL"
    using assms m1 m2 by simp
  then have run: "split_into_groups lst len s = Some (p, q, s2)"
    using m1 m2 by (auto simp: split_into_groups_def simp del: split_loop.simps)
  have old: "\<forall>c. c < length (heap s) \<longrightarrow> block s2 c = block s c"
    using two_mallocs_old[OF m1 m2] by blast
  have new: "\<forall>c cs. length (heap s) \<le> c \<longrightarrow> block s2 c = Some cs \<longrightarrow> set cs \<subseteq> {None}"
    using two_mallocs_new[OF m1 m2] by blast
  show ?thesis
    using run pq old new by blast
qed

lemma create_fail:
  assumes "len > RANGE \<or> fst (malloc RANGE s) = NULL
           \<or> fst (malloc len (snd (malloc RANGE s))) = NULL"
  shows "\<exists>s'. create_distinct_random_list len names s = Some (NULL, s')
           \<and> (\<forall>c. c < length (heap s) \<longrightarrow> block s' c = block s c)
           \<and> (\<forall>c cs. length (heap s) \<le> c \<longrightarrow> block s' c = Some cs \<longrightarrow> set cs \<subseteq> {None})"
proof (cases "len > RANGE")
  case True
  then have "create_distinct_random_list len names s = Some (NULL, s)"
    by (simp add: create_distinct_random_list_def)
  moreover have "\<forall>c cs. length (heap s) \<le> c \<longrightarrow> block s c = Some cs \<longrightarrow> set cs \<subseteq> {None}"
    by (simp add: block_def)
  ultimately show ?thesis by blast
next
  case False
  obtain p s1 where m1: "malloc RANGE s = (p, s1)"
    by (cases "malloc RANGE s")
  obtain q s2 where m2: "malloc len s1 = (q, s2)"
    by (cases "malloc len s1")
  have pq: "q = NULL \<or> p = NULL"
    using assms False m1 m2 by auto
  then have run: "create_distinct_random_list len names s = Some (NULL, s2)"
    using False m1 m2
    by (auto simp: create_distinct_random_list_def simp del: fill_loop.simps copy_loop.simps)
  have old: "\<forall>c. c < length (heap s) \<longrightarrow> block s2 c = block s c"
    using two_mallocs_old[OF m1 m2] by blast
  have new: "\<forall>c cs. length (heap s) \<le> c \<longrightarrow> block s2 c = Some cs \<longrightarrow> set cs \<subseteq> {None}"
    using two_mallocs_new[OF m1 m2] by blast
  show ?thesis
    using run old new by blast
qed

text \<open>
  Claim C6, as amended. When the count is above \<open>RANGE\<close> or one of its two allocations
  fails, \<open>create_distinct_random_list\<close> returns a null pointer, no array. When one of its
  two allocations fails, \<open>split_into_groups\<close> returns at once with at least one group
  pointer null. In both cases every array that existed before is unchanged and no cell has
  been copied: a block allocated during the call holds indeterminate cells only.
\<close>

theorem failure_copies_nothing:
  "(len > RANGE \<or> fst (malloc RANGE s) = NULL \<or> fst (malloc len (snd (malloc RANGE s))) = NULL \<longrightarrow>
      (\<exists>s'. create_distinct_random_list len names s = Some (NULL, s')
           \<and> (\<forall>c. c < length (heap s) \<longrightarrow> block s' c = block s c)
           \<and> (\<forall>c cs. length (heap s) \<le> c \<longrightarrow> block s' c = Some cs \<longrightarrow> set cs \<subseteq> {None})))
   \<and> (fst (malloc (len sdiv 2) s) = NULL
        \<or> fst (malloc (len sdiv 2) (snd (malloc (len sdiv 2) s))) = NULL \<longrightarrow>
      (\<exists>ga gb s'. split_into_groups lst len s = Some (ga, gb, s') \<and> (ga = NULL \<or> gb = NULL)
           \<and> (\<forall>c. c < length (heap s) \<longrightarrow> block s' c = block s c)
           \<and> (\<forall>c cs. length (heap s) \<le> c \<longrightarrow> block s' c = Some cs \<longrightarrow> set cs \<subseteq> {None})))"
  using create_fail[of len s names] split_fail[of len s lst] by blast

theorem failure_copies_nothing_witness:
  "(\<exists>s'. create_distinct_random_list 2 main_names (sample_state two_cells zero_draws first_granted)
           = Some (NULL, s')
         \<and> block s' 0 = Some two_cells)
   \<and> (\<exists>ga gb s'. split_into_groups (Ptr 0 0) 2 (sample_state two_cells zero_draws first_granted)
           = Some (ga, gb, s')
         \<and> (ga = NULL \<or> gb = NULL) \<and> block s' 0 = Some two_cells)"
proof -
  let ?s = "sample_state two_cells zero_draws first_granted"
  have h1: "fst (malloc 2 (snd (malloc RANGE ?s))) = NULL"
    by (simp add: malloc_def sample_state_def first_granted_def RANGE_def)
  have h2: "fst (malloc (2 sdiv 2) (snd (malloc (2 sdiv 2) ?s))) = NULL"
    by (simp add: malloc_def sample_state_def first_granted_def signed_divide_int_def)
  have b: "block ?s 0 = Some two_cells" "0 < length (heap ?s)"
    by (simp_all add: sample_state_def block_def)
  have d1: "2 > RANGE \<or> fst (malloc RANGE ?s) = NULL \<or> fst (malloc 2 (snd (malloc RANGE ?s))) = NULL"
    using h1 by simp
  have d2: "fst (malloc (2 sdiv 2) ?s) = NULL
            \<or> fst (malloc (2 sdiv 2) (snd (malloc (2 sdiv 2) ?s))) = NULL"
    using h2 by simp
  note t = failure_copies_nothing [of 2 ?s main_names "Ptr 0 0"]
  obtain s1 where c1: "create_distinct_random_list 2 main_names ?s = Some (NULL, s1)"
    and c2: "\<forall>c. c < length (heap ?s) \<longrightarrow> block s1 c = block ?s c"
    using t[THEN conjunct1, THEN mp, OF d1] by blast
  obtain ga gb s2 where e1: "split_into_groups (Ptr 0 0) 2 ?s = Some (ga, gb, s2)"
    and e2: "ga = NULL \<or> gb = NULL"
    and e3: "\<forall>c. c < length (heap ?s) \<longrightarrow> block s2 c = block ?s c"
    using t[THEN conjunct2, THEN mp, OF d2] by blast
  have "block s1 0 = Some two_cells" "block s2 0 = Some two_cells"
    using c2 e3 b by simp_all
  then show ?thesis
    using c1 e1 e2 by blast
qed

text \<open>
  Claim C6 as stated fails for \<open>split_into_groups\<close>, which has no return value to report
  a failure: when the first allocation succeeds and the second fails, the caller is left
  with a non-null group A that points to cells never written, next to a null group B.
\<close>

theorem split_one_allocation_counterexample:
  "split_into_groups (Ptr 0 0) 2 (sample_state two_cells zero_draws first_granted)
   = Some (Ptr 1 0, NULL,
           \<lparr>heap = [Some two_cells, Some [None]], rand_src = zero_draws, rand_cnt = 0,
            malloc_src = first_granted, malloc_cnt = 2\<rparr>)"
  by (simp add: split_into_groups_def malloc_def sample_state_def first_granted_def
      signed_divide_int_def)

text \<open>
  Claim C7. Whenever \<open>split_into_groups\<close> returns, every array that existed before the
  call, the input among them, is unchanged. When both groups are non-null they are two
  different blocks that did not exist before the call, so a later write to one group
  changes neither the other group nor any earlier array, and a write to an earlier array
  changes neither group. For an input of even length and both allocations succeeding the
  call does return such groups, holding the two halves of the input.
\<close>

theorem split_keeps_input_and_copies:
  "(\<forall>ga gb s'. split_into_groups lst len s = Some (ga, gb, s') \<longrightarrow>
      (\<forall>c. c < length (heap s) \<longrightarrow> block s' c = block s c)
      \<and> (ga \<noteq> NULL \<and> gb \<noteq> NULL \<longrightarrow>
          (\<exists>a b. ga = Ptr a 0 \<and> gb = Ptr b 0 \<and> a \<noteq> b \<and> block s a = None \<and> block s b = None
             \<and> (\<forall>p v s''. store (Ptr a p) v s' = Some s'' \<longrightarrow>
                   block s'' b = block s' b
                   \<and> (\<forall>c. c < length (heap s) \<longrightarrow> block s'' c = block s' c))
             \<and> (\<forall>p v s''. store (Ptr b p) v s' = Some s'' \<longrightarrow>
                   block s'' a = block s' a
                   \<and> (\<forall>c. c < length (heap s) \<longrightarrow> block s'' c = block s' c))
             \<and> (\<forall>c p v s''. c < length (heap s) \<longrightarrow> store (Ptr c p) v s' = Some s'' \<longrightarrow>
                   block s'' a = block s' a \<and> block s'' b = block s' b))))
   \<and> (\<forall>l cs k. lst = Ptr l 0 \<and> block s l = Some cs \<and> len = int (length cs) \<and> length cs = 2 * k
        \<and> malloc_src s (malloc_cnt s) \<and> malloc_src s (Suc (malloc_cnt s)) \<longrightarrow>
        (\<exists>a b s'. split_into_groups lst len s = Some (Ptr a 0, Ptr b 0, s')
                  \<and> block s' l = Some cs
                  \<and> block s' a = Some (take k cs) \<and> block s' b = Some (drop k cs)))"
proof (intro conjI allI impI)
  fix ga gb s' c
  assume "split_into_groups lst len s = Some (ga, gb, s')" "c < length (heap s)"
  then show "block s' c = block s c"
    using split_result(1) by blast
next
  fix ga gb s'
  assume run: "split_into_groups lst len s = Some (ga, gb, s')" and nn: "ga \<noteq> NULL \<and> gb \<noteq> NULL"
  let ?a = "length (heap s)"
  let ?b = "Suc (length (heap s))"
  have g: "ga = Ptr ?a 0" "gb = Ptr ?b 0"
    using split_result(2)[OF run] nn by simp_all
  have fresh: "block s ?a = None" "block s ?b = None"
    by (simp_all add: block_def)
  have wa: "\<forall>p v s''. store (Ptr ?a p) v s' = Some s'' \<longrightarrow>
                   block s'' ?b = block s' ?b
                   \<and> (\<forall>c. c < length (heap s) \<longrightarrow> block s'' c = block s' c)"
  proof (intro allI impI conjI)
    fix p v s'' assume "store (Ptr ?a p) v s' = Some s''"
    then show "block s'' ?b = block s' ?b"
      by (rule store_Ptr_other) simp
  next
    fix p v s'' c assume "store (Ptr ?a p) v s' = Some s''" and c: "c < length (heap s)"
    then show "block s'' c = block s' c"
      by (intro store_Ptr_other[of ?a p v s' s'' c]) simp_all
  qed
  have wb: "\<forall>p v s''. store (Ptr ?b p) v s' = Some s'' \<longrightarrow>
                   block s'' ?a = block s' ?a
                   \<and> (\<forall>c. c < length (heap s) \<longrightarrow> block s'' c = block s' c)"
  proof (intro allI impI conjI)
    fix p v s'' assume "store (Ptr ?b p) v s' = Some s''"
    then show "block s'' ?a = block s' ?a"
      by (rule store_Ptr_other) simp
  next
    fix p v s'' c assume "store (Ptr ?b p) v s' = Some s''" and c: "c < length (heap s)"
    then show "block s'' c = block s' c"
      by (intro store_Ptr_other[of ?b p v s' s'' c]) simp_all
  qed
  have wc: "\<forall>c p v s''. c < length (heap s) \<longrightarrow> store (Ptr c p) v s' = Some s'' \<longrightarrow>
                   block s'' ?a = block s' ?a \<and> block s'' ?b = block s' ?b"
  proof (intro allI impI conjI)
    fix c p v s'' assume c: "c < length (heap s)" and st: "store (Ptr c p) v s' = Some s''"
    show "block s'' ?a = block s' ?a"
      using st by (rule store_Ptr_other) (use c in simp)
    show "block s'' ?b = block s' ?b"
      using st by (rule store_Ptr_other) (use c in simp)
  qed
  show "\<exists>a b. ga = Ptr a 0 \<and> gb = Ptr b 0 \<and> a \<noteq> b \<and> block s a = None \<and> block s b = None
             \<and> (\<forall>p v s''. store (Ptr a p) v s' = Some s'' \<longrightarrow>
                   block s'' b = block s' b
                   \<and> (\<forall>c. c < length (heap s) \<longrightarrow> block s'' c = block s' c))
             \<and> (\<forall>p v s''. store (Ptr b p) v s' = Some s'' \<longrightarrow>
                   block s'' a = block s' a
                   \<and> (\<forall>c. c < length (heap s) \<longrightarrow> block s'' c = block s' c))
             \<and> (\<forall>c p v s''. c < length (heap s) \<longrightarrow> store (Ptr c p) v s' = Some s'' \<longrightarrow>
                   block s'' a = block s' a \<and> block s'' b = block s' b)"
    apply (rule exI[of _ ?a])
    apply (rule exI[of _ ?b])
    apply (intro conjI)
           apply (rule g(1))
          apply (rule g(2))
         apply simp
        apply (rule fresh(1))
       apply (rule fresh(2))
      apply (rule wa)
     apply (rule wb)
    apply (rule wc)
    done
next
  fix l cs k
  assume a: "lst = Ptr l 0 \<and> block s l = Some cs \<and> len = int (length cs) \<and> length cs = 2 * k
        \<and> malloc_src s (malloc_cnt s) \<and> malloc_src s (Suc (malloc_cnt s))"
  let ?n = "length (heap s)"
  let ?s' = "s\<lparr>malloc_cnt := Suc (Suc (malloc_cnt s)),
               heap := heap s @ [Some (take k cs), Some (drop k cs)]\<rparr>"
  have run: "split_into_groups (Ptr l 0) (int (length cs)) s = Some (Ptr ?n 0, Ptr (Suc ?n) 0, ?s')"
    using a by (intro split_block) simp_all
  have l: "l < ?n" using a block_Some_less by blast
  have "block ?s' l = Some cs" "block ?s' ?n = Some (take k cs)" "block ?s' (Suc ?n) = Some (drop k cs)"
    using a l by (simp_all add: block_def nth_append)
  then show "\<exists>a b s'. split_into_groups lst len s = Some (Ptr a 0, Ptr b 0, s')
                  \<and> block s' l = Some cs
                  \<and> block s' a = Some (take k cs) \<and> block s' b = Some (drop k cs)"
    using run a by blast
qed

theorem split_keeps_input_and_copies_witness:
  "\<exists>a b s'. split_into_groups (Ptr 0 0) 2 (sample_state two_cells zero_draws all_granted)
              = Some (Ptr a 0, Ptr b 0, s')
            \<and> block s' 0 = Some two_cells
            \<and> a \<noteq> b
            \<and> block (sample_state two_cells zero_draws all_granted) a = None
            \<and> block (sample_state two_cells zero_draws all_granted) b = None"
proof -
  let ?s = "sample_state two_cells zero_draws all_granted"
  note t = split_keeps_input_and_copies [of "Ptr 0 0" 2 ?s]
  have h: "Ptr 0 0 = Ptr 0 0 \<and> block ?s 0 = Some two_cells \<and> (2::int) = int (length two_cells)
           \<and> length two_cells = 2 * 1
           \<and> malloc_src ?s (malloc_cnt ?s) \<and> malloc_src ?s (Suc (malloc_cnt ?s))"
    by (simp add: sample_state_def block_def two_cells_def all_granted_def)
  obtain a b s' where run: "split_into_groups (Ptr 0 0) 2 ?s = Some (Ptr a 0, Ptr b 0, s')"
    and src: "block s' 0 = Some two_cells"
    using t[THEN conjunct2, THEN spec, THEN spec, THEN spec, THEN mp, OF h] by blast
  have nn: "Ptr a 0 \<noteq> NULL \<and> Ptr b 0 \<noteq> NULL"
    by simp
  note u = t[THEN conjunct1, THEN spec, THEN spec, THEN spec, THEN mp, OF run,
      THEN conjunct2, THEN mp, OF nn]
  obtain a' b' where "Ptr a 0 = Ptr a' 0" "Ptr b 0 = Ptr b' 0" "a' \<noteq> b'"
    "block ?s a' = None" "block ?s b' = None"
    using u by blast
  then have "a \<noteq> b \<and> block ?s a = None \<and> block ?s b = None"
    by simp
  then show ?thesis
    using run src by blast
qed

end
